theory Spec2Isabelle
  imports Complex_Main
begin

section \<open>Binary floating point\<close>

text \<open>
  A \<^verbatim>\<open>number\<close> of the language is an IEEE 754 binary64 value, and a cell of a
  \<^verbatim>\<open>Float32Array\<close> is a binary32 value. Every arithmetic operation computes the
  exact result and rounds it to the nearest value of the format, a tie going to the
  value with an even last digit.

  \<open>roundNE\<close> rounds a real to the nearest integer, ties to even. \<open>roundTo p qmin\<close>
  rounds a real to \<open>p\<close> significant binary digits, the last of them at position
  \<open>qmin\<close> or higher (this is where the subnormal numbers begin); \<open>quantum\<close> is the
  position of the last digit kept. It does not bound the exponent from above:
  overflow is handled where a result is packed into a \<open>number\<close>.
\<close>

definition roundNE :: "real \<Rightarrow> int" where
  "roundNE x =
     (let f = \<lfloor>x\<rfloor>; d = x - of_int f
      in if d < 1 / 2 then f else if 1 / 2 < d then f + 1 else if even f then f else f + 1)"

definition quantum :: "nat \<Rightarrow> int \<Rightarrow> real \<Rightarrow> int" where
  "quantum p qmin x = max (\<lfloor>log 2 \<bar>x\<bar>\<rfloor> - (int p - 1)) qmin"

definition roundTo :: "nat \<Rightarrow> int \<Rightarrow> real \<Rightarrow> real" where
  "roundTo p qmin x =
     (if x = 0 then 0
      else of_int (roundNE (x / 2 powi quantum p qmin x)) * 2 powi quantum p qmin x)"

definition round64 :: "real \<Rightarrow> real" where
  "round64 = roundTo 53 (- 1074)"

definition round32 :: "real \<Rightarrow> real" where
  "round32 = roundTo 24 (- 149)"

section \<open>Numbers and arrays\<close>

text \<open>
  A number is finite (\<open>Num r\<close>, where \<open>Num 0\<close> is the positive zero), the negative
  zero, an infinity or \<^verbatim>\<open>NaN\<close>. The \<^verbatim>\<open>undefined\<close> that an index outside an array
  reads is \<^verbatim>\<open>NaN\<close> in every arithmetic use, and is \<^verbatim>\<open>NaN\<close> here.
\<close>

datatype number = Num real | NegZero | PosInf | NegInf | NaN

fun val :: "number \<Rightarrow> real" where
  "val (Num a) = a"
| "val _ = 0"

fun isNeg :: "number \<Rightarrow> bool" where
  "isNeg (Num a) = (a < 0)"
| "isNeg NegZero = True"
| "isNeg NegInf = True"
| "isNeg _ = False"

fun isInf :: "number \<Rightarrow> bool" where
  "isInf PosInf = True"
| "isInf NegInf = True"
| "isInf _ = False"

fun isZero :: "number \<Rightarrow> bool" where
  "isZero (Num a) = (a = 0)"
| "isZero NegZero = True"
| "isZero _ = False"

definition signedZero :: "bool \<Rightarrow> number" where
  "signedZero neg = (if neg then NegZero else Num 0)"

definition signedInf :: "bool \<Rightarrow> number" where
  "signedInf neg = (if neg then NegInf else PosInf)"

text \<open>
  Packing the exact result \<open>z\<close> of an operation into a number of a format with rounding
  \<open>rnd\<close> and overflow threshold \<open>bound\<close>: an exact zero takes the sign \<open>neg\<close> that the
  operation gives it, a result that rounds to \<open>bound\<close> or beyond is an infinity, a result
  that rounds to zero keeps its sign.
\<close>

definition pack :: "(real \<Rightarrow> real) \<Rightarrow> real \<Rightarrow> bool \<Rightarrow> real \<Rightarrow> number" where
  "pack rnd bound neg z =
     (if z = 0 then signedZero neg
      else let r = rnd z
           in if bound \<le> \<bar>r\<bar> then signedInf (z < 0)
              else if r = 0 then signedZero (z < 0)
              else Num r)"

definition fin64 :: "bool \<Rightarrow> real \<Rightarrow> number" where
  "fin64 = pack round64 (2 ^ 1024)"

definition fin32 :: "bool \<Rightarrow> real \<Rightarrow> number" where
  "fin32 = pack round32 (2 ^ 128)"

text \<open>The operators \<^verbatim>\<open>+\<close>, unary \<^verbatim>\<open>-\<close>, binary \<^verbatim>\<open>-\<close>, \<^verbatim>\<open>*\<close> and \<^verbatim>\<open>/\<close> on numbers.\<close>

definition nadd :: "number \<Rightarrow> number \<Rightarrow> number" where
  "nadd a b =
     (if a = NaN \<or> b = NaN then NaN
      else if isInf a then (if isInf b \<and> a \<noteq> b then NaN else a)
      else if isInf b then b
      else fin64 (a = NegZero \<and> b = NegZero) (val a + val b))"

fun nneg :: "number \<Rightarrow> number" where
  "nneg (Num a) = (if a = 0 then NegZero else Num (- a))"
| "nneg NegZero = Num 0"
| "nneg PosInf = NegInf"
| "nneg NegInf = PosInf"
| "nneg NaN = NaN"

definition nsub :: "number \<Rightarrow> number \<Rightarrow> number" where
  "nsub a b = nadd a (nneg b)"

definition nmul :: "number \<Rightarrow> number \<Rightarrow> number" where
  "nmul a b =
     (if a = NaN \<or> b = NaN then NaN
      else if isInf a \<or> isInf b
        then (if isZero a \<or> isZero b then NaN else signedInf (isNeg a \<noteq> isNeg b))
      else fin64 (isNeg a \<noteq> isNeg b) (val a * val b))"

definition ndiv :: "number \<Rightarrow> number \<Rightarrow> number" where
  "ndiv a b =
     (if a = NaN \<or> b = NaN then NaN
      else if isInf a then (if isInf b then NaN else signedInf (isNeg a \<noteq> isNeg b))
      else if isInf b then signedZero (isNeg a \<noteq> isNeg b)
      else if isZero b then (if isZero a then NaN else signedInf (isNeg a \<noteq> isNeg b))
      else fin64 (isNeg a \<noteq> isNeg b) (val a / val b))"

text \<open>
  The comparisons \<^verbatim>\<open>a <= b\<close> and \<^verbatim>\<open>a < b\<close>: false as soon as one side is
  \<^verbatim>\<open>NaN\<close>; the two zeros are equal.
\<close>

definition nle :: "number \<Rightarrow> number \<Rightarrow> bool" where
  "nle a b \<longleftrightarrow> a \<noteq> NaN \<and> b \<noteq> NaN
     \<and> (a = NegInf \<or> b = PosInf \<or> (\<not> isInf a \<and> \<not> isInf b \<and> val a \<le> val b))"

definition nlt :: "number \<Rightarrow> number \<Rightarrow> bool" where
  "nlt a b \<longleftrightarrow> a \<noteq> NaN \<and> b \<noteq> NaN
     \<and> ((a = NegInf \<and> b \<noteq> NegInf) \<or> (b = PosInf \<and> a \<noteq> PosInf)
        \<or> (\<not> isInf a \<and> \<not> isInf b \<and> val a < val b))"

text \<open>
  \<^verbatim>\<open>Math.min\<close> returns \<^verbatim>\<open>NaN\<close> as soon as one argument is \<^verbatim>\<open>NaN\<close>, and takes
  the negative zero for smaller than the positive one.
\<close>

definition nmin :: "number \<Rightarrow> number \<Rightarrow> number" where
  "nmin a b =
     (if a = NaN \<or> b = NaN then NaN
      else if nlt a b then a
      else if nlt b a then b
      else if a = NegZero then a else b)"

text \<open>The conversion of a number to binary32, which a store into a \<^verbatim>\<open>Float32Array\<close> applies.\<close>

fun toFloat32 :: "number \<Rightarrow> number" where
  "toFloat32 (Num a) = fin32 False a"
| "toFloat32 v = v"

text \<open>
  The field is a \<^verbatim>\<open>Float32Array | number[]\<close>. Reading \<^verbatim>\<open>field[i]\<close> outside the
  array gives \<^verbatim>\<open>undefined\<close>. The assignment \<^verbatim>\<open>field[i] = v\<close> converts \<open>v\<close> to
  binary32 on a \<^verbatim>\<open>Float32Array\<close> and is ignored there outside the array; on a
  \<^verbatim>\<open>number[]\<close> it stores \<open>v\<close> as it is, and at an index from the length on the array
  grows, the cells in between being holes, which read \<^verbatim>\<open>undefined\<close>. (No function of
  the module assigns at a negative index of a \<^verbatim>\<open>number[]\<close>; the model ignores such
  an assignment.)
\<close>

datatype arr = Float32Array (cells: "number list") | NumberArray (cells: "number list")

definition rd :: "arr \<Rightarrow> int \<Rightarrow> number" where
  "rd a i = (if 0 \<le> i \<and> i < int (length (cells a)) then cells a ! nat i else NaN)"

fun stored :: "arr \<Rightarrow> number \<Rightarrow> number" where
  "stored (Float32Array c) v = toFloat32 v"
| "stored (NumberArray c) v = v"

fun setCell :: "arr \<Rightarrow> int \<Rightarrow> number \<Rightarrow> arr" where
  "setCell (Float32Array c) i v =
     Float32Array (if 0 \<le> i \<and> i < int (length c) then c[nat i := toFloat32 v] else c)"
| "setCell (NumberArray c) i v =
     NumberArray (if i < 0 then c
                  else if i < int (length c) then c[nat i := v]
                  else c @ replicate (nat i - length c) NaN @ [v])"

text \<open>
  The buffer \<open>next\<close> of the step functions is a \<^verbatim>\<open>Float32Array\<close>, created zero-filled
  by \<^verbatim>\<open>new Float32Array(n)\<close>: the loops below carry its cells, and \<open>upd\<close> is the
  assignment \<^verbatim>\<open>next[i] = v\<close> on them.
\<close>

definition upd :: "number list \<Rightarrow> int \<Rightarrow> number \<Rightarrow> number list" where
  "upd a i v = (if 0 \<le> i \<and> i < int (length a) then a[nat i := toFloat32 v] else a)"

definition newFloat32Array :: "nat \<Rightarrow> number list" where
  "newFloat32Array n = replicate n (Num 0)"

section \<open>Pheromone field\<close>

subsection \<open>depositPheromone, getPheromoneAt, getTotalPheromone\<close>

text \<open>
  \<^verbatim>\<open>depositPheromone\<close> mutates its argument: the model returns the flag together
  with the field after the call. The coordinates and the dimensions are integers (of a
  size that the index arithmetic computes exactly). \<^verbatim>\<open>getPheromoneAt\<close> returns
  \<^verbatim>\<open>field[idx]\<close> as it is.
\<close>

definition depositPheromone ::
  "arr \<Rightarrow> int \<Rightarrow> int \<Rightarrow> int \<Rightarrow> int \<Rightarrow> number \<Rightarrow> number \<Rightarrow> bool \<times> arr" where
  "depositPheromone field cols rows x y amount maxPheromone =
     (if x < 0 \<or> x \<ge> cols \<or> y < 0 \<or> y \<ge> rows then (False, field)
      else
        let idx = x + y * cols
        in (True, setCell field idx (nmin (nadd (rd field idx) amount) maxPheromone)))"

definition getPheromoneAt :: "arr \<Rightarrow> int \<Rightarrow> int \<Rightarrow> int \<Rightarrow> int \<Rightarrow> number" where
  "getPheromoneAt field cols rows x y =
     (if x < 0 \<or> x \<ge> cols \<or> y < 0 \<or> y \<ge> rows then Num 0
      else rd field (x + y * cols))"

function totalFrom :: "arr \<Rightarrow> int \<Rightarrow> number \<Rightarrow> number" where
  "totalFrom field i tot =
     (if i < int (length (cells field)) then totalFrom field (i + 1) (nadd tot (rd field i))
      else tot)"
  by pat_completeness auto
termination
  by (relation "measure (\<lambda>(field, i, tot). nat (int (length (cells field)) - i))") auto

declare totalFrom.simps [simp del]

definition getTotalPheromone :: "arr \<Rightarrow> number" where
  "getTotalPheromone field = totalFrom field 0 (Num 0)"

subsection \<open>evaporatePheromones\<close>

function evaporateFrom :: "arr \<Rightarrow> number \<Rightarrow> int \<Rightarrow> number list \<Rightarrow> number list" where
  "evaporateFrom field evaporationRate i next =
     (if i < int (length (cells field))
      then evaporateFrom field evaporationRate (i + 1)
             (upd next i (nmul (rd field i) evaporationRate))
      else next)"
  by pat_completeness auto
termination
  by (relation "measure (\<lambda>(field, e, i, next). nat (int (length (cells field)) - i))") auto

declare evaporateFrom.simps [simp del]

definition evaporatePheromones :: "arr \<Rightarrow> number \<Rightarrow> arr" where
  "evaporatePheromones field evaporationRate =
     Float32Array (evaporateFrom field evaporationRate 0 (newFloat32Array (length (cells field))))"

subsection \<open>diffusePheromones\<close>

text \<open>The first loop: the first and the last row.\<close>

function edgeRows :: "arr \<Rightarrow> int \<Rightarrow> int \<Rightarrow> number \<Rightarrow> int \<Rightarrow> number list \<Rightarrow> number list" where
  "edgeRows field cols rows evaporationRate x next =
     (if x < cols
      then edgeRows field cols rows evaporationRate (x + 1)
             (upd (upd next x (nmul (rd field x) evaporationRate))
                  (x + (rows - 1) * cols)
                  (nmul (rd field (x + (rows - 1) * cols)) evaporationRate))
      else next)"
  by pat_completeness auto
termination
  by (relation "measure (\<lambda>(field, cols, rows, e, x, next). nat (cols - x))") auto

declare edgeRows.simps [simp del]

text \<open>The second loop: the first and the last column.\<close>

function edgeCols :: "arr \<Rightarrow> int \<Rightarrow> int \<Rightarrow> number \<Rightarrow> int \<Rightarrow> number list \<Rightarrow> number list" where
  "edgeCols field cols rows evaporationRate y next =
     (if y < rows
      then edgeCols field cols rows evaporationRate (y + 1)
             (upd (upd next (y * cols) (nmul (rd field (y * cols)) evaporationRate))
                  (cols - 1 + y * cols)
                  (nmul (rd field (cols - 1 + y * cols)) evaporationRate))
      else next)"
  by pat_completeness auto
termination
  by (relation "measure (\<lambda>(field, cols, rows, e, y, next). nat (rows - y))") auto

declare edgeCols.simps [simp del]

text \<open>The body of the interior loops: the value assigned to \<^verbatim>\<open>next[idx]\<close>.\<close>

definition neighborSum :: "arr \<Rightarrow> int \<Rightarrow> int \<Rightarrow> number" where
  "neighborSum field cols idx =
     nadd (nadd (nadd (nadd (nadd (nadd (nadd
       (rd field (idx - 1))
       (rd field (idx + 1)))
       (rd field (idx - cols)))
       (rd field (idx + cols)))
       (rd field (idx - 1 - cols)))
       (rd field (idx + 1 - cols)))
       (rd field (idx - 1 + cols)))
       (rd field (idx + 1 + cols))"

definition diffuseCell :: "arr \<Rightarrow> int \<Rightarrow> number \<Rightarrow> number \<Rightarrow> int \<Rightarrow> number" where
  "diffuseCell field cols diffusionRate evaporationRate idx =
     (let sum = neighborSum field cols idx;
          center = rd field idx;
          diffused = nadd (nmul center (nsub (Num 1) diffusionRate))
                          (nmul (ndiv sum (Num 8)) diffusionRate)
      in nmul diffused evaporationRate)"

function interiorY ::
  "arr \<Rightarrow> int \<Rightarrow> int \<Rightarrow> number \<Rightarrow> number \<Rightarrow> int \<Rightarrow> int \<Rightarrow> number list \<Rightarrow> number list" where
  "interiorY field cols rows diffusionRate evaporationRate x y next =
     (if y < rows - 1
      then interiorY field cols rows diffusionRate evaporationRate x (y + 1)
             (upd next (x + y * cols)
                (diffuseCell field cols diffusionRate evaporationRate (x + y * cols)))
      else next)"
  by pat_completeness auto
termination
  by (relation "measure (\<lambda>(field, cols, rows, d, e, x, y, next). nat (rows - 1 - y))") auto

declare interiorY.simps [simp del]

function interiorX ::
  "arr \<Rightarrow> int \<Rightarrow> int \<Rightarrow> number \<Rightarrow> number \<Rightarrow> int \<Rightarrow> number list \<Rightarrow> number list" where
  "interiorX field cols rows diffusionRate evaporationRate x next =
     (if x < cols - 1
      then interiorX field cols rows diffusionRate evaporationRate (x + 1)
             (interiorY field cols rows diffusionRate evaporationRate x 1 next)
      else next)"
  by pat_completeness auto
termination
  by (relation "measure (\<lambda>(field, cols, rows, d, e, x, next). nat (cols - 1 - x))") auto

declare interiorX.simps [simp del]

definition diffusePheromones :: "arr \<Rightarrow> int \<Rightarrow> int \<Rightarrow> number \<Rightarrow> number \<Rightarrow> arr" where
  "diffusePheromones field cols rows diffusionRate evaporationRate =
     (let next = newFloat32Array (length (cells field));
          next = edgeRows field cols rows evaporationRate 0 next;
          next = edgeCols field cols rows evaporationRate 0 next
      in Float32Array (interiorX field cols rows diffusionRate evaporationRate 1 next))"

subsection \<open>worldToGrid\<close>

text \<open>
  \<^verbatim>\<open>Math.floor\<close> of a number: an integer, an infinity or \<^verbatim>\<open>NaN\<close>. (The floor of
  the negative zero is the negative zero, which prints as \<^verbatim>\<open>0\<close> and adds as zero: it
  is the cell 0 here.) \<open>floorDiv a b\<close> is \<^verbatim>\<open>Math.floor(a / b)\<close>.
\<close>

datatype cellnum = Cell int | PosInfinity | NegInfinity | NotANumber

fun floorNum :: "number \<Rightarrow> cellnum" where
  "floorNum (Num a) = Cell \<lfloor>a\<rfloor>"
| "floorNum NegZero = Cell 0"
| "floorNum PosInf = PosInfinity"
| "floorNum NegInf = NegInfinity"
| "floorNum NaN = NotANumber"

definition floorDiv :: "number \<Rightarrow> number \<Rightarrow> cellnum" where
  "floorDiv a b = floorNum (ndiv a b)"

record GridCoord =
  gx :: cellnum
  gy :: cellnum

definition worldToGrid :: "number \<Rightarrow> number \<Rightarrow> number \<Rightarrow> GridCoord" where
  "worldToGrid worldX worldY gridSize =
     \<lparr>gx = floorDiv worldX gridSize, gy = floorDiv worldY gridSize\<rparr>"

subsection \<open>Sequences of deposits, for the statements\<close>

text \<open>
  A caller depositing the amounts of a list, one call after the other, at one coordinate
  and with one maximum; each call works on the field the previous one left.
\<close>

fun depositSequence ::
  "arr \<Rightarrow> int \<Rightarrow> int \<Rightarrow> int \<Rightarrow> int \<Rightarrow> number list \<Rightarrow> number \<Rightarrow> arr" where
  "depositSequence field cols rows x y [] maxPheromone = field"
| "depositSequence field cols rows x y (amount # amounts) maxPheromone =
     depositSequence (snd (depositPheromone field cols rows x y amount maxPheromone))
       cols rows x y amounts maxPheromone"

text \<open>
  The sum of a list of amounts as a cell of the field accumulates it: from left to
  right, each partial sum rounded to binary64 by the addition and then converted as the
  array stores it.
\<close>

fun storedSum :: "arr \<Rightarrow> number \<Rightarrow> number list \<Rightarrow> number" where
  "storedSum field s [] = s"
| "storedSum field s (amount # amounts) = storedSum field (stored field (nadd s amount)) amounts"

text \<open>
  The stencil and the total of a field in the reals: what the step and the sum compute
  where no operation rounds (for the statement on the conservation of mass).
\<close>

definition exactStencil :: "arr \<Rightarrow> int \<Rightarrow> real \<Rightarrow> int \<Rightarrow> real" where
  "exactStencil field cols d idx =
     val (rd field idx) * (1 - d)
     + (val (rd field (idx - 1)) + val (rd field (idx + 1))
        + val (rd field (idx - cols)) + val (rd field (idx + cols))
        + val (rd field (idx - 1 - cols)) + val (rd field (idx + 1 - cols))
        + val (rd field (idx - 1 + cols)) + val (rd field (idx + 1 + cols))) / 8 * d"

definition exactTotal :: "arr \<Rightarrow> real" where
  "exactTotal field = sum_list (map val (cells field))"

text \<open>The indices of the interior cells of a grid (used in proofs only).\<close>

definition interiorCells :: "int \<Rightarrow> int \<Rightarrow> int set" where
  "interiorCells cols rows = (\<lambda>(x, y). x + y * cols) ` ({1..<cols - 1} \<times> {1..<rows - 1})"

section \<open>Pheromone field: the arrays in a store\<close>

text \<open>
  For the frame conditions the arrays live in a store: an address is an index into the
  list of the arrays allocated so far, and \<^verbatim>\<open>new Float32Array(n)\<close> appends a
  zero-filled array and returns its address. Every read \<^verbatim>\<open>field[i]\<close> reads the
  current store at the address of \<open>field\<close>, every write \<^verbatim>\<open>next[i] = v\<close> changes the
  current store at the address of \<open>next\<close>, so that a read after a write to the same
  array would see it.
\<close>

type_synonym store = "arr list"

definition allocFloat32Array :: "store \<Rightarrow> nat \<Rightarrow> store \<times> nat" where
  "allocFloat32Array st n = (st @ [Float32Array (newFloat32Array n)], length st)"

definition wr :: "store \<Rightarrow> nat \<Rightarrow> int \<Rightarrow> number \<Rightarrow> store" where
  "wr st a i v = st[a := setCell (st ! a) i v]"

function evaporateFromStore :: "nat \<Rightarrow> nat \<Rightarrow> number \<Rightarrow> int \<Rightarrow> store \<Rightarrow> store" where
  "evaporateFromStore field next evaporationRate i st =
     (if i < int (length (cells (st ! field)))
      then evaporateFromStore field next evaporationRate (i + 1)
             (wr st next i (nmul (rd (st ! field) i) evaporationRate))
      else st)"
  by pat_completeness auto

text \<open>
  The loop bound \<^verbatim>\<open>field.length\<close> is read again at every test; a write below the
  length never changes the length of an array, which is what makes the loop end.
\<close>

termination evaporateFromStore
proof (relation "measure (\<lambda>(field, next, e, i, st). nat (int (length (cells (st ! field))) - i))")
  show "wf (measure (\<lambda>(field, next, e, i, st). nat (int (length (cells (st ! field))) - i)))"
    by simp
next
  fix field "next" :: nat and evaporationRate :: number and i :: int and st :: store
  assume less: "i < int (length (cells (st ! field)))"
  let ?v = "nmul (rd (st ! field) i) evaporationRate"
  have "length (cells (wr st next i ?v ! field)) = length (cells (st ! field))"
    using less
    by (cases "next < length st"; cases "next = field"; cases "st ! field")
       (simp_all add: wr_def not_less list_update_beyond)
  with less show "((field, next, evaporationRate, i + 1, wr st next i ?v),
                   (field, next, evaporationRate, i, st))
                  \<in> measure (\<lambda>(field, next, e, i, st). nat (int (length (cells (st ! field))) - i))"
    by simp
qed

declare evaporateFromStore.simps [simp del]

definition evaporatePheromonesStore :: "nat \<Rightarrow> number \<Rightarrow> store \<Rightarrow> store \<times> nat" where
  "evaporatePheromonesStore field evaporationRate st =
     (let (st, next) = allocFloat32Array st (length (cells (st ! field)))
      in (evaporateFromStore field next evaporationRate 0 st, next))"

function edgeRowsStore :: "nat \<Rightarrow> nat \<Rightarrow> int \<Rightarrow> int \<Rightarrow> number \<Rightarrow> int \<Rightarrow> store \<Rightarrow> store" where
  "edgeRowsStore field next cols rows evaporationRate x st =
     (if x < cols
      then
        let st = wr st next x (nmul (rd (st ! field) x) evaporationRate);
            st = wr st next (x + (rows - 1) * cols)
                   (nmul (rd (st ! field) (x + (rows - 1) * cols)) evaporationRate)
        in edgeRowsStore field next cols rows evaporationRate (x + 1) st
      else st)"
  by pat_completeness auto
termination
  by (relation "measure (\<lambda>(field, next, cols, rows, e, x, st). nat (cols - x))") auto

declare edgeRowsStore.simps [simp del]

function edgeColsStore :: "nat \<Rightarrow> nat \<Rightarrow> int \<Rightarrow> int \<Rightarrow> number \<Rightarrow> int \<Rightarrow> store \<Rightarrow> store" where
  "edgeColsStore field next cols rows evaporationRate y st =
     (if y < rows
      then
        let st = wr st next (y * cols) (nmul (rd (st ! field) (y * cols)) evaporationRate);
            st = wr st next (cols - 1 + y * cols)
                   (nmul (rd (st ! field) (cols - 1 + y * cols)) evaporationRate)
        in edgeColsStore field next cols rows evaporationRate (y + 1) st
      else st)"
  by pat_completeness auto
termination
  by (relation "measure (\<lambda>(field, next, cols, rows, e, y, st). nat (rows - y))") auto

declare edgeColsStore.simps [simp del]

function interiorYStore ::
  "nat \<Rightarrow> nat \<Rightarrow> int \<Rightarrow> int \<Rightarrow> number \<Rightarrow> number \<Rightarrow> int \<Rightarrow> int \<Rightarrow> store \<Rightarrow> store" where
  "interiorYStore field next cols rows diffusionRate evaporationRate x y st =
     (if y < rows - 1
      then interiorYStore field next cols rows diffusionRate evaporationRate x (y + 1)
             (wr st next (x + y * cols)
                (diffuseCell (st ! field) cols diffusionRate evaporationRate (x + y * cols)))
      else st)"
  by pat_completeness auto
termination
  by (relation "measure (\<lambda>(field, next, cols, rows, d, e, x, y, st). nat (rows - 1 - y))") auto

declare interiorYStore.simps [simp del]

function interiorXStore ::
  "nat \<Rightarrow> nat \<Rightarrow> int \<Rightarrow> int \<Rightarrow> number \<Rightarrow> number \<Rightarrow> int \<Rightarrow> store \<Rightarrow> store" where
  "interiorXStore field next cols rows diffusionRate evaporationRate x st =
     (if x < cols - 1
      then interiorXStore field next cols rows diffusionRate evaporationRate (x + 1)
             (interiorYStore field next cols rows diffusionRate evaporationRate x 1 st)
      else st)"
  by pat_completeness auto
termination
  by (relation "measure (\<lambda>(field, next, cols, rows, d, e, x, st). nat (cols - 1 - x))") auto

declare interiorXStore.simps [simp del]

definition diffusePheromonesStore ::
  "nat \<Rightarrow> int \<Rightarrow> int \<Rightarrow> number \<Rightarrow> number \<Rightarrow> store \<Rightarrow> store \<times> nat" where
  "diffusePheromonesStore field cols rows diffusionRate evaporationRate st =
     (let (st, next) = allocFloat32Array st (length (cells (st ! field)));
          st = edgeRowsStore field next cols rows evaporationRate 0 st;
          st = edgeColsStore field next cols rows evaporationRate 0 st;
          st = interiorXStore field next cols rows diffusionRate evaporationRate 1 st
      in (st, next))"

section \<open>Spatial hash\<close>

record Vector2D =
  vec_x :: number
  vec_y :: number

record Boid =
  pos :: Vector2D
  vel :: Vector2D
  acc :: Vector2D
  maxSpeed :: number
  maxForce :: number

subsection \<open>The cell key\<close>

text \<open>
  The template literal \<^verbatim>\<open>`${cellX},${cellY}`\<close> prints both numbers and puts a comma
  between them. An integer prints in decimal, with a minus sign when negative. (From
  \<open>10\<^sup>2\<^sup>1\<close> on the language prints an integer with an exponent, and as injectively;
  the model prints every integer in decimal.)
\<close>

definition digitChar :: "nat \<Rightarrow> char" where
  "digitChar d = ''0123456789'' ! d"

function natToString :: "nat \<Rightarrow> string" where
  "natToString n =
     (if n < 10 then [digitChar n] else natToString (n div 10) @ [digitChar (n mod 10)])"
  by pat_completeness auto
termination
  by (relation "measure id") auto

declare natToString.simps [simp del]

definition intToString :: "int \<Rightarrow> string" where
  "intToString i = (if i < 0 then CHR ''-'' # natToString (nat (- i)) else natToString (nat i))"

fun cellToString :: "cellnum \<Rightarrow> string" where
  "cellToString (Cell i) = intToString i"
| "cellToString PosInfinity = ''Infinity''"
| "cellToString NegInfinity = ''-Infinity''"
| "cellToString NotANumber = ''NaN''"

definition makeKey :: "cellnum \<Rightarrow> cellnum \<Rightarrow> string" where
  "makeKey cellX cellY = cellToString cellX @ '','' @ cellToString cellY"

definition getCellKey :: "Vector2D \<Rightarrow> number \<Rightarrow> string" where
  "getCellKey p cellSize =
     (let cellX = floorDiv (vec_x p) cellSize;
          cellY = floorDiv (vec_y p) cellSize
      in makeKey cellX cellY)"

subsection \<open>buildSpatialHash\<close>

text \<open>
  The grid is a \<^verbatim>\<open>Map<string, Boid[]>\<close>. Building and querying only use
  \<^verbatim>\<open>has\<close>, \<^verbatim>\<open>get\<close> and \<^verbatim>\<open>set\<close>, so the grid is a partial function
  from keys to buckets.
\<close>

type_synonym SpatialGrid = "string \<rightharpoonup> Boid list"

fun buildFrom :: "Boid list \<Rightarrow> number \<Rightarrow> SpatialGrid \<Rightarrow> SpatialGrid" where
  "buildFrom [] cellSize grid = grid"
| "buildFrom (boid # boids) cellSize grid =
     (let cellX = floorDiv (vec_x (pos boid)) cellSize;
          cellY = floorDiv (vec_y (pos boid)) cellSize;
          key = makeKey cellX cellY;
          grid = (if grid key = None then grid(key \<mapsto> []) else grid);
          grid = grid(key \<mapsto> the (grid key) @ [boid])
      in buildFrom boids cellSize grid)"

definition buildSpatialHash :: "Boid list \<Rightarrow> number \<Rightarrow> SpatialGrid" where
  "buildSpatialHash boids cellSize = buildFrom boids cellSize Map.empty"

subsection \<open>getNeighbors\<close>

text \<open>
  \<^verbatim>\<open>cellX + dx\<close>: the cell coordinate is a number again, and the sum is the binary64
  sum, rounded where the exact sum is not a binary64 value.
\<close>

fun cellNum :: "cellnum \<Rightarrow> number" where
  "cellNum (Cell c) = Num (of_int c)"
| "cellNum PosInfinity = PosInf"
| "cellNum NegInfinity = NegInf"
| "cellNum NotANumber = NaN"

definition cellAdd :: "cellnum \<Rightarrow> int \<Rightarrow> cellnum" where
  "cellAdd c d = floorNum (nadd (cellNum c) (Num (of_int d)))"

function neighborsDy ::
  "SpatialGrid \<Rightarrow> cellnum \<Rightarrow> cellnum \<Rightarrow> int \<Rightarrow> int \<Rightarrow> Boid list \<Rightarrow> Boid list" where
  "neighborsDy grid cellX cellY dx dy neighbors =
     (if dy \<le> 1
      then
        let key = makeKey (cellAdd cellX dx) (cellAdd cellY dy)
        in neighborsDy grid cellX cellY dx (dy + 1)
             (if grid key \<noteq> None then neighbors @ the (grid key) else neighbors)
      else neighbors)"
  by pat_completeness auto
termination
  by (relation "measure (\<lambda>(grid, cellX, cellY, dx, dy, neighbors). nat (2 - dy))") auto

declare neighborsDy.simps [simp del]

function neighborsDx ::
  "SpatialGrid \<Rightarrow> cellnum \<Rightarrow> cellnum \<Rightarrow> int \<Rightarrow> Boid list \<Rightarrow> Boid list" where
  "neighborsDx grid cellX cellY dx neighbors =
     (if dx \<le> 1
      then neighborsDx grid cellX cellY (dx + 1) (neighborsDy grid cellX cellY dx (- 1) neighbors)
      else neighbors)"
  by pat_completeness auto
termination
  by (relation "measure (\<lambda>(grid, cellX, cellY, dx, neighbors). nat (2 - dx))") auto

declare neighborsDx.simps [simp del]

definition getNeighbors :: "Boid \<Rightarrow> SpatialGrid \<Rightarrow> number \<Rightarrow> Boid list" where
  "getNeighbors boid grid cellSize =
     (let cellX = floorDiv (vec_x (pos boid)) cellSize;
          cellY = floorDiv (vec_y (pos boid)) cellSize
      in neighborsDx grid cellX cellY (- 1) [])"

text \<open>A boid at a position, at rest: for the examples.\<close>

definition boidAt :: "number \<Rightarrow> number \<Rightarrow> Boid" where
  "boidAt x y =
     \<lparr>pos = \<lparr>vec_x = x, vec_y = y\<rparr>, vel = \<lparr>vec_x = Num 0, vec_y = Num 0\<rparr>,
      acc = \<lparr>vec_x = Num 0, vec_y = Num 0\<rparr>, maxSpeed = Num 1, maxForce = Num 1\<rparr>"

section \<open>Rounding\<close>

lemma roundNE_of_int [simp]: "roundNE (of_int n) = n"
  by (simp add: roundNE_def)

lemma roundNE_bounds: "\<lfloor>y\<rfloor> \<le> roundNE y" "roundNE y \<le> \<lfloor>y\<rfloor> + 1"
  by (simp_all add: roundNE_def Let_def)

lemma roundNE_ge: "of_int n \<le> y \<Longrightarrow> n \<le> roundNE y"
proof -
  assume "of_int n \<le> y"
  then have "n \<le> \<lfloor>y\<rfloor>" by (simp add: le_floor_iff)
  with roundNE_bounds(1)[of y] show ?thesis by simp
qed

lemma roundNE_le: "y \<le> of_int n \<Longrightarrow> roundNE y \<le> n"
proof (cases "y = of_int n")
  case True
  then show ?thesis by simp
next
  case False
  assume "y \<le> of_int n"
  with False have "y < of_int n" by simp
  then have "\<lfloor>y\<rfloor> < n" by (simp add: floor_less_iff)
  with roundNE_bounds(2)[of y] show ?thesis by simp
qed

lemma roundNE_minus: "roundNE (- y) = - roundNE y"
proof (cases "y = of_int \<lfloor>y\<rfloor>")
  case True
  then obtain n where "y = of_int n" ..
  then have "- y = of_int (- n)" by simp
  then have "roundNE (- y) = - n" by (simp only: roundNE_of_int)
  with \<open>y = of_int n\<close> show ?thesis by simp
next
  case False
  define f where "f = \<lfloor>y\<rfloor>"
  define d where "d = y - of_int f"
  have d: "0 < d" "d < 1" using False by (simp_all add: d_def f_def) linarith+
  have fl: "\<lfloor>- y\<rfloor> = - f - 1"
    using d by (intro floor_unique) (simp_all add: d_def)
  have d': "- y - of_int (- f - 1) = 1 - d" by (simp add: d_def)
  have ev: "even (- f - 1) \<longleftrightarrow> odd f" by simp
  have "roundNE y = (if d < 1 / 2 then f else if 1 / 2 < d then f + 1 else if even f then f else f + 1)"
    by (simp add: roundNE_def f_def d_def Let_def)
  moreover have "roundNE (- y) = (if 1 - d < 1 / 2 then - f - 1 else if 1 / 2 < 1 - d then - f
       else if odd f then - f - 1 else - f)"
    unfolding roundNE_def Let_def fl d' ev by simp
  ultimately show ?thesis by auto
qed

lemma roundNE_nonneg: "0 \<le> y \<Longrightarrow> 0 \<le> roundNE y"
  using roundNE_ge[of 0 y] by simp

lemma two_powr_powi: "2 powr (of_int k) = (2::real) powi k"
  by (simp add: powr_real_of_int power_int_def power_one_over inverse_eq_divide)

lemma bexp_bounds:
  fixes x :: real
  assumes "x \<noteq> 0"
  shows "2 powi \<lfloor>log 2 \<bar>x\<bar>\<rfloor> \<le> \<bar>x\<bar>" and "\<bar>x\<bar> < 2 powi (\<lfloor>log 2 \<bar>x\<bar>\<rfloor> + 1)"
proof -
  have "0 < \<bar>x\<bar>" using assms by simp
  from floor_log_eq_powr_iff[OF this, of 2 "\<lfloor>log 2 \<bar>x\<bar>\<rfloor>"]
  have "2 powr (of_int \<lfloor>log 2 \<bar>x\<bar>\<rfloor>) \<le> \<bar>x\<bar> \<and> \<bar>x\<bar> < 2 powr (of_int (\<lfloor>log 2 \<bar>x\<bar>\<rfloor> + 1))"
    by simp
  then show "2 powi \<lfloor>log 2 \<bar>x\<bar>\<rfloor> \<le> \<bar>x\<bar>" and "\<bar>x\<bar> < 2 powi (\<lfloor>log 2 \<bar>x\<bar>\<rfloor> + 1)"
    by (simp_all only: two_powr_powi)
qed

lemma bexp_eq:
  fixes x :: real
  assumes "2 powi e \<le> \<bar>x\<bar>" "\<bar>x\<bar> < 2 powi (e + 1)"
  shows "\<lfloor>log 2 \<bar>x\<bar>\<rfloor> = e"
proof -
  have "(0::real) < 2 powi e" by simp
  with assms(1) have "0 < \<bar>x\<bar>" by linarith
  from floor_log_eq_powr_iff[OF this, of 2 e] assms show ?thesis
    by (simp only: two_powr_powi)
qed

lemma roundTo_eval:
  assumes "2 powi e \<le> \<bar>x\<bar>" "\<bar>x\<bar> < 2 powi (e + 1)" "q = max (e - (int p - 1)) qmin"
  shows "roundTo p qmin x = of_int (roundNE (x / 2 powi q)) * 2 powi q"
proof -
  have "(0::real) < 2 powi e" by simp
  with assms(1) have "0 < \<bar>x\<bar>" by linarith
  then have "x \<noteq> 0" by simp
  then show ?thesis
    by (simp add: roundTo_def quantum_def bexp_eq[OF assms(1,2)] assms(3))
qed

lemma roundTo_zero [simp]: "roundTo p qmin 0 = 0"
  by (simp add: roundTo_def)

lemma roundTo_minus: "roundTo p qmin (- x) = - roundTo p qmin x"
  by (simp add: roundTo_def quantum_def roundNE_minus)

lemma roundTo_nonneg: "0 \<le> x \<Longrightarrow> 0 \<le> roundTo p qmin x"
  by (simp add: roundTo_def roundNE_nonneg)

lemma roundTo_nonpos: "x \<le> 0 \<Longrightarrow> roundTo p qmin x \<le> 0"
  using roundTo_nonneg[of "- x" p qmin] by (simp add: roundTo_minus)

lemma pow2_mono: "a \<le> b \<Longrightarrow> (2::real) powi a \<le> 2 powi b"
  by (rule power_int_increasing) simp_all

lemma pow2_less_imp: "(2::real) powi a < 2 powi b \<Longrightarrow> a < b"
proof (rule ccontr)
  assume "(2::real) powi a < 2 powi b" "\<not> a < b"
  then have "(2::real) powi b \<le> 2 powi a" by (intro pow2_mono) simp
  with \<open>(2::real) powi a < 2 powi b\<close> show False by simp
qed

lemma pow2_add: "(2::real) powi (a + b) = 2 powi a * 2 powi b"
  by (simp add: power_int_add)

lemma pow2_diff: "(2::real) powi (a - b) = 2 powi a / 2 powi b"
  by (simp add: power_int_diff)

lemma pow2_int: "0 \<le> k \<Longrightarrow> (2::real) powi k = of_int (2 ^ nat k)"
  by (simp add: power_int_def)

lemma bexp_mono:
  fixes a b :: real
  assumes "0 < a" "a \<le> b"
  shows "\<lfloor>log 2 a\<rfloor> \<le> \<lfloor>log 2 b\<rfloor>"
  using assms by (intro floor_mono) simp

lemma roundTo_quantum:
  "x \<noteq> 0 \<Longrightarrow> roundTo p qmin x
     = of_int (roundNE (x / 2 powi quantum p qmin x)) * 2 powi quantum p qmin x"
  by (simp add: roundTo_def)

lemma quantum_ge: "qmin \<le> quantum p qmin x"
  by (simp add: quantum_def)

lemma quantum_mono:
  assumes "0 < a" "a \<le> b"
  shows "quantum p qmin a \<le> quantum p qmin b"
proof -
  from assms have "\<lfloor>log 2 \<bar>a\<bar>\<rfloor> \<le> \<lfloor>log 2 \<bar>b\<bar>\<rfloor>" using bexp_mono[of a b] by simp
  then show ?thesis by (simp add: quantum_def)
qed

lemma roundTo_dyadic_less:
  assumes p: "1 \<le> p" and m: "\<bar>m\<bar> < 2 ^ p" and q: "qmin \<le> q"
  shows "roundTo p qmin (of_int m * 2 powi q) = of_int m * 2 powi q"
proof (cases "m = 0")
  case True
  then show ?thesis by simp
next
  case False
  let ?x = "of_int m * (2::real) powi q"
  let ?Q = "quantum p qmin ?x"
  have x0: "?x \<noteq> 0" using False by simp
  have "\<bar>?x\<bar> = of_int \<bar>m\<bar> * 2 powi q" by (simp add: abs_mult)
  also have "\<dots> < of_int (2 ^ p) * 2 powi q"
    using m by (intro mult_strict_right_mono) (simp_all del: of_int_power)
  also have "\<dots> = 2 powi (int p + q)" by (simp add: pow2_add)
  finally have up: "\<bar>?x\<bar> < 2 powi (int p + q)" .
  from bexp_bounds(1)[OF x0] up have "2 powi \<lfloor>log 2 \<bar>?x\<bar>\<rfloor> < (2::real) powi (int p + q)"
    by linarith
  then have "\<lfloor>log 2 \<bar>?x\<bar>\<rfloor> < int p + q" by (rule pow2_less_imp)
  with q have Qq: "?Q \<le> q" by (simp add: quantum_def)
  have "?x / 2 powi ?Q = of_int m * 2 powi (q - ?Q)" by (simp add: pow2_diff)
  also have "\<dots> = of_int (m * 2 ^ nat (q - ?Q))" using Qq by (simp add: pow2_int)
  finally have "roundNE (?x / 2 powi ?Q) = m * 2 ^ nat (q - ?Q)" by (simp only: roundNE_of_int)
  then have "roundTo p qmin ?x = of_int (m * 2 ^ nat (q - ?Q)) * 2 powi ?Q"
    by (simp only: roundTo_quantum[OF x0])
  also have "\<dots> = of_int m * (2 powi (q - ?Q) * 2 powi ?Q)" using Qq by (simp add: pow2_int)
  also have "\<dots> = ?x" by (simp add: pow2_add[symmetric])
  finally show ?thesis .
qed

lemma roundTo_dyadic:
  assumes p: "1 \<le> p" and m: "\<bar>m\<bar> \<le> 2 ^ p" and q: "qmin \<le> q"
  shows "roundTo p qmin (of_int m * 2 powi q) = of_int m * 2 powi q"
proof (cases "\<bar>m\<bar> < 2 ^ p")
  case True
  then show ?thesis using p q by (intro roundTo_dyadic_less)
next
  case False
  with m have eq: "\<bar>m\<bar> = 2 ^ p" by simp
  obtain k where k: "p = Suc k" using p by (cases p) simp_all
  define h where "h = m div 2"
  have "2 dvd \<bar>m\<bar>" unfolding eq k by simp
  then have "2 dvd m" by simp
  then have m2: "m = 2 * h" by (simp add: h_def)
  have "\<bar>h\<bar> = 2 ^ k" using eq k m2 by (simp add: abs_mult)
  then have hl: "\<bar>h\<bar> < 2 ^ p" by (simp add: k)
  have "of_int m * (2::real) powi q = of_int h * 2 powi (q + 1)"
    by (simp add: m2 pow2_add)
  moreover have "roundTo p qmin (of_int h * 2 powi (q + 1)) = of_int h * 2 powi (q + 1)"
    using p hl q by (intro roundTo_dyadic_less) simp_all
  ultimately show ?thesis by simp
qed

lemma roundTo_structure:
  assumes p: "1 \<le> p" and x0: "x \<noteq> 0"
  shows "\<bar>roundNE (x / 2 powi quantum p qmin x)\<bar> \<le> 2 ^ p"
proof -
  let ?Q = "quantum p qmin x"
  let ?E = "\<lfloor>log 2 \<bar>x\<bar>\<rfloor>"
  have QE: "?E + 1 - ?Q \<le> int p" by (simp add: quantum_def)
  have "\<bar>x / 2 powi ?Q\<bar> = \<bar>x\<bar> / 2 powi ?Q" by simp
  also have "\<dots> < 2 powi (?E + 1) / 2 powi ?Q"
    using bexp_bounds(2)[OF x0] by (intro divide_strict_right_mono) simp_all
  also have "\<dots> = 2 powi (?E + 1 - ?Q)" by (simp add: pow2_diff)
  also have "\<dots> \<le> 2 powi (int p)" using QE by (rule pow2_mono)
  also have "\<dots> = of_int (2 ^ p)" by simp
  finally have b: "\<bar>x / 2 powi ?Q\<bar> < of_int (2 ^ p)" .
  define y where "y = x / 2 powi ?Q"
  define c :: int where "c = 2 ^ p"
  from b have "\<bar>y\<bar> < of_int c" unfolding y_def c_def .
  then have yc: "y \<le> of_int c" "of_int (- c) \<le> y" by (simp_all add: abs_less_iff)
  have "roundNE y \<le> c" using yc(1) by (rule roundNE_le)
  moreover have "- c \<le> roundNE y" using yc(2) by (rule roundNE_ge)
  ultimately show ?thesis unfolding y_def c_def by (simp add: abs_le_iff)
qed

lemma roundTo_idem:
  assumes "1 \<le> p"
  shows "roundTo p qmin (roundTo p qmin x) = roundTo p qmin x"
proof (cases "x = 0")
  case True
  then show ?thesis by simp
next
  case False
  show ?thesis
    unfolding roundTo_quantum[OF False, of p qmin]
    by (rule roundTo_dyadic[OF assms roundTo_structure[OF assms False] quantum_ge])
qed

lemma roundTo_fixed_repr:
  assumes "x \<noteq> 0" "roundTo p qmin x = x"
  shows "x = of_int (roundNE (x / 2 powi quantum p qmin x)) * 2 powi quantum p qmin x"
  using roundTo_quantum[OF assms(1), of p qmin, unfolded assms(2)] .

lemma roundTo_fixed_int:
  assumes "x \<noteq> 0" "roundTo p qmin x = x"
  shows "x / 2 powi quantum p qmin x = of_int (roundNE (x / 2 powi quantum p qmin x))"
proof -
  let ?Q = "quantum p qmin x"
  let ?n = "roundNE (x / 2 powi ?Q)"
  from assms have "x = of_int ?n * 2 powi ?Q" by (rule roundTo_fixed_repr)
  then have "x / 2 powi ?Q = of_int ?n * 2 powi ?Q / 2 powi ?Q" by simp
  then show ?thesis by simp
qed

lemma roundTo_ge_fixed_pos:
  assumes p: "1 \<le> p" and fx: "roundTo p qmin r = r" and r: "0 < r" and rz: "r \<le> z"
  shows "r \<le> roundTo p qmin z"
proof -
  let ?Qr = "quantum p qmin r" and ?Qz = "quantum p qmin z"
  let ?Er = "\<lfloor>log 2 \<bar>r\<bar>\<rfloor>" and ?Ez = "\<lfloor>log 2 \<bar>z\<bar>\<rfloor>"
  have z: "0 < z" "z \<noteq> 0" and r0: "r \<noteq> 0" using r rz by simp_all
  have QQ: "?Qr \<le> ?Qz" using r rz by (rule quantum_mono)
  have rt: "roundTo p qmin z = of_int (roundNE (z / 2 powi ?Qz)) * 2 powi ?Qz"
    using z(2) by (rule roundTo_quantum)
  show ?thesis
  proof (cases "?Qr = ?Qz")
    case True
    define n where "n = roundNE (r / 2 powi ?Qr)"
    have rn: "r / 2 powi ?Qz = of_int n"
      using roundTo_fixed_int[OF r0 fx] by (simp add: n_def True)
    have "r / 2 powi ?Qz \<le> z / 2 powi ?Qz"
      using rz by (intro divide_right_mono) simp_all
    then have "of_int n \<le> z / 2 powi ?Qz" by (simp only: rn)
    then have "n \<le> roundNE (z / 2 powi ?Qz)" by (rule roundNE_ge)
    then have "(of_int n :: real) \<le> of_int (roundNE (z / 2 powi ?Qz))" by simp
    then have "(of_int n :: real) * 2 powi ?Qz \<le> of_int (roundNE (z / 2 powi ?Qz)) * 2 powi ?Qz"
      by (intro mult_right_mono) simp_all
    moreover have "r = of_int n * 2 powi ?Qz" using rn by (simp add: field_simps)
    ultimately show ?thesis by (simp only: rt)
  next
    case False
    with QQ have lt: "?Qr < ?Qz" by simp
    have "qmin \<le> ?Qr" by (rule quantum_ge)
    with lt have "qmin < ?Qz" by simp
    then have Qz: "?Qz = ?Ez - (int p - 1)" unfolding quantum_def by linarith
    have "?Er - (int p - 1) \<le> ?Qr" unfolding quantum_def by linarith
    with lt Qz have EE: "?Er + 1 \<le> ?Ez" by linarith
    have "\<bar>r\<bar> < 2 powi (?Er + 1)" using r0 by (rule bexp_bounds(2))
    also have "\<dots> \<le> 2 powi ?Ez" using EE by (rule pow2_mono)
    finally have rE: "r < 2 powi ?Ez" using r by simp
    have zE: "2 powi ?Ez \<le> z" using bexp_bounds(1)[OF z(2)] z(1) by simp
    have "2 powi ?Ez / 2 powi ?Qz = (2::real) powi (?Ez - ?Qz)" by (simp add: pow2_diff)
    also have "?Ez - ?Qz = int (p - 1)" using Qz p by simp
    also have "(2::real) powi int (p - 1) = of_int (2 ^ (p - 1))" by simp
    finally have k: "2 powi ?Ez / 2 powi ?Qz = (of_int (2 ^ (p - 1)) :: real)" .
    have "2 powi ?Ez / 2 powi ?Qz \<le> z / 2 powi ?Qz"
      using zE by (intro divide_right_mono) simp_all
    then have "of_int (2 ^ (p - 1)) \<le> z / 2 powi ?Qz" by (simp only: k)
    then have "2 ^ (p - 1) \<le> roundNE (z / 2 powi ?Qz)" by (rule roundNE_ge)
    then have "(of_int (2 ^ (p - 1)) :: real) \<le> of_int (roundNE (z / 2 powi ?Qz))"
      by (simp only: of_int_le_iff)
    then have "(of_int (2 ^ (p - 1)) :: real) * 2 powi ?Qz
        \<le> of_int (roundNE (z / 2 powi ?Qz)) * 2 powi ?Qz"
      by (intro mult_right_mono) simp_all
    moreover have "(of_int (2 ^ (p - 1)) :: real) * 2 powi ?Qz = 2 powi ?Ez"
      using k by (simp add: field_simps)
    ultimately have "2 powi ?Ez \<le> roundTo p qmin z" by (simp only: rt)
    with rE show ?thesis by simp
  qed
qed

lemma roundTo_le_fixed_pos:
  assumes p: "1 \<le> p" and fx: "roundTo p qmin r = r" and z: "0 < z" and zr: "z \<le> r"
  shows "roundTo p qmin z \<le> r"
proof -
  let ?Qr = "quantum p qmin r" and ?Qz = "quantum p qmin z"
  have r: "0 < r" "r \<noteq> 0" and z0: "z \<noteq> 0" using z zr by simp_all
  have QQ: "?Qz \<le> ?Qr" using z zr by (rule quantum_mono)
  have rt: "roundTo p qmin z = of_int (roundNE (z / 2 powi ?Qz)) * 2 powi ?Qz"
    using z0 by (rule roundTo_quantum)
  define n where "n = roundNE (r / 2 powi ?Qr)"
  have rn: "r = of_int n * 2 powi ?Qr"
    unfolding n_def using r(2) fx by (rule roundTo_fixed_repr)
  have "r / 2 powi ?Qz = of_int n * 2 powi (?Qr - ?Qz)"
    by (subst rn) (simp add: pow2_diff)
  also have "\<dots> = of_int (n * 2 ^ nat (?Qr - ?Qz))" using QQ by (simp add: pow2_int)
  finally have k: "r / 2 powi ?Qz = of_int (n * 2 ^ nat (?Qr - ?Qz))" .
  have "z / 2 powi ?Qz \<le> r / 2 powi ?Qz"
    using zr by (intro divide_right_mono) simp_all
  then have "z / 2 powi ?Qz \<le> of_int (n * 2 ^ nat (?Qr - ?Qz))" by (simp only: k)
  then have "roundNE (z / 2 powi ?Qz) \<le> n * 2 ^ nat (?Qr - ?Qz)" by (rule roundNE_le)
  then have "(of_int (roundNE (z / 2 powi ?Qz)) :: real) \<le> of_int (n * 2 ^ nat (?Qr - ?Qz))"
    by (simp only: of_int_le_iff)
  then have "(of_int (roundNE (z / 2 powi ?Qz)) :: real) * 2 powi ?Qz
      \<le> of_int (n * 2 ^ nat (?Qr - ?Qz)) * 2 powi ?Qz"
    by (intro mult_right_mono) simp_all
  moreover have "of_int (n * 2 ^ nat (?Qr - ?Qz)) * 2 powi ?Qz = r"
    using k by (simp add: field_simps)
  ultimately show ?thesis by (simp only: rt)
qed

lemma roundTo_fixed_minus: "roundTo p qmin r = r \<Longrightarrow> roundTo p qmin (- r) = - r"
  by (simp add: roundTo_minus)

lemma roundTo_le_fixed:
  assumes p: "1 \<le> p" and fx: "roundTo p qmin r = r" and zr: "z \<le> r"
  shows "roundTo p qmin z \<le> r"
proof -
  consider "z = 0" | "0 < z" | "z < 0" "0 \<le> r" | "z < 0" "r < 0" by linarith
  then show ?thesis
  proof cases
    case 1
    with zr show ?thesis by simp
  next
    case 2
    with p fx zr show ?thesis by (intro roundTo_le_fixed_pos)
  next
    case 3
    have "roundTo p qmin z \<le> 0" using 3(1) by (intro roundTo_nonpos) simp
    with 3(2) show ?thesis by simp
  next
    case 4
    have "- r \<le> roundTo p qmin (- z)"
      using p roundTo_fixed_minus[OF fx] 4(2) zr by (intro roundTo_ge_fixed_pos) simp_all
    then show ?thesis by (simp add: roundTo_minus)
  qed
qed

lemma roundTo_ge_fixed:
  assumes p: "1 \<le> p" and fx: "roundTo p qmin r = r" and rz: "r \<le> z"
  shows "r \<le> roundTo p qmin z"
proof -
  have "roundTo p qmin (- z) \<le> - r"
    using p roundTo_fixed_minus[OF fx] rz by (intro roundTo_le_fixed) simp_all
  then show ?thesis by (simp add: roundTo_minus)
qed

lemma roundTo_widen:
  assumes "1 \<le> p" "p \<le> p'" "qmin' \<le> qmin" "roundTo p qmin x = x"
  shows "roundTo p' qmin' x = x"
proof (cases "x = 0")
  case True
  then show ?thesis by simp
next
  case False
  let ?Q = "quantum p qmin x"
  let ?n = "roundNE (x / 2 powi ?Q)"
  have x: "x = of_int ?n * 2 powi ?Q" using False assms(4) by (rule roundTo_fixed_repr)
  have "\<bar>?n\<bar> \<le> 2 ^ p" using assms(1) False by (rule roundTo_structure)
  also have "(2::int) ^ p \<le> 2 ^ p'" using assms(2) by (intro power_increasing) simp_all
  finally have n: "\<bar>?n\<bar> \<le> 2 ^ p'" .
  have q: "qmin' \<le> ?Q" using quantum_ge[of qmin p x] assms(3) by simp
  have p': "1 \<le> p'" using assms(1,2) by simp
  have "roundTo p' qmin' (of_int ?n * 2 powi ?Q) = of_int ?n * 2 powi ?Q"
    using p' n q by (rule roundTo_dyadic)
  then show ?thesis using x by simp
qed

lemma roundTo_of_int:
  assumes "1 \<le> p" "\<bar>n\<bar> \<le> 2 ^ p" "qmin \<le> 0"
  shows "roundTo p qmin (of_int n) = of_int n"
  using roundTo_dyadic[OF assms(1,2), of qmin 0] assms(3) by simp

lemma roundTo_floor_fixed:
  assumes p: "1 \<le> p" and q: "qmin \<le> 0" and fx: "roundTo p qmin x = x"
  shows "roundTo p qmin (of_int \<lfloor>x\<rfloor>) = of_int \<lfloor>x\<rfloor>"
proof (cases "x = 0")
  case True
  then show ?thesis by simp
next
  case False
  let ?Q = "quantum p qmin x"
  let ?n = "roundNE (x / 2 powi ?Q)"
  have x: "x = of_int ?n * 2 powi ?Q" using False fx by (rule roundTo_fixed_repr)
  have n: "\<bar>?n\<bar> \<le> 2 ^ p" using p False by (rule roundTo_structure)
  show ?thesis
  proof (cases "0 \<le> ?Q")
    case True
    have "x = of_int (?n * 2 ^ nat ?Q)" using True by (subst x) (simp add: pow2_int)
    then have "of_int \<lfloor>x\<rfloor> = x" by (metis floor_of_int)
    with fx show ?thesis by (simp only:)
  next
    case neg: False
    then have "(2::real) powi ?Q \<le> 2 powi 0" by (intro pow2_mono) simp
    then have le1: "(2::real) powi ?Q \<le> 1" by simp
    have "\<bar>x\<bar> = of_int \<bar>?n\<bar> * 2 powi ?Q" by (subst x) (simp add: abs_mult)
    also have "\<dots> \<le> of_int \<bar>?n\<bar> * 1" using le1 by (intro mult_left_mono) simp_all
    also have "\<dots> \<le> of_int (2 ^ p)" using n by (simp del: of_int_power of_int_abs)
    finally have "\<bar>x\<bar> \<le> of_int (2 ^ p)" .
    then have "x \<le> of_int (2 ^ p)" "of_int (- (2 ^ p)) \<le> x" by (simp_all add: abs_le_iff)
    then have "\<lfloor>x\<rfloor> \<le> 2 ^ p" "- (2 ^ p) \<le> \<lfloor>x\<rfloor>"
      by (simp_all add: le_floor_iff floor_le_iff del: of_int_power)
    then have "\<bar>\<lfloor>x\<rfloor>\<bar> \<le> 2 ^ p" by (simp add: abs_le_iff)
    with p q show ?thesis by (intro roundTo_of_int)
  qed
qed

text \<open>Evaluating at a given number.\<close>

lemma roundNE_eqI: "of_int n - 1 / 2 < y \<Longrightarrow> y < of_int n + 1 / 2 \<Longrightarrow> roundNE y = n"
proof -
  assume a: "of_int n - 1 / 2 < y" "y < of_int n + 1 / 2"
  consider "of_int n \<le> y" | "y < of_int n" by linarith
  then show ?thesis
  proof cases
    case 1
    with a have "\<lfloor>y\<rfloor> = n" by (intro floor_unique) simp_all
    with a show ?thesis by (simp add: roundNE_def Let_def)
  next
    case 2
    with a have "\<lfloor>y\<rfloor> = n - 1" by (intro floor_unique) simp_all
    with a 2 show ?thesis by (simp add: roundNE_def Let_def)
  qed
qed

lemma roundNE_tie: "y = of_int n + 1 / 2 \<Longrightarrow> roundNE y = (if even n then n else n + 1)"
proof -
  assume a: "y = of_int n + 1 / 2"
  then have "\<lfloor>y\<rfloor> = n" by (intro floor_unique) simp_all
  with a show ?thesis by (simp add: roundNE_def Let_def)
qed

lemma roundTo_evalI:
  assumes "2 powi e \<le> \<bar>x\<bar>" "\<bar>x\<bar> < 2 powi (e + 1)" "q = max (e - (int p - 1)) qmin"
    and "roundNE (x / 2 powi q) = n"
  shows "roundTo p qmin x = of_int n * 2 powi q"
  using roundTo_eval[OF assms(1-3)] assms(4) by simp

lemma round32_evalI:
  assumes "2 powi e \<le> \<bar>x\<bar>" "\<bar>x\<bar> < 2 powi (e + 1)" "q = max (e - 23) (- 149)"
    and "roundNE (x / 2 powi q) = n" "y = of_int n * 2 powi q"
  shows "round32 x = y"
  unfolding round32_def assms(5) by (rule roundTo_evalI[OF assms(1,2) _ assms(4)]) (simp add: assms(3))

lemma round64_evalI:
  assumes "2 powi e \<le> \<bar>x\<bar>" "\<bar>x\<bar> < 2 powi (e + 1)" "q = max (e - 52) (- 1074)"
    and "roundNE (x / 2 powi q) = n" "y = of_int n * 2 powi q"
  shows "round64 x = y"
  unfolding round64_def assms(5) by (rule roundTo_evalI[OF assms(1,2) _ assms(4)]) (simp add: assms(3))

section \<open>Numbers\<close>

lemma round64_zero [simp]: "round64 0 = 0"
  by (simp add: round64_def)

lemma round32_zero [simp]: "round32 0 = 0"
  by (simp add: round32_def)

lemma round64_nonneg: "0 \<le> x \<Longrightarrow> 0 \<le> round64 x"
  by (simp add: round64_def roundTo_nonneg)

lemma round64_nonpos: "x \<le> 0 \<Longrightarrow> round64 x \<le> 0"
  by (simp add: round64_def roundTo_nonpos)

lemma round32_nonneg: "0 \<le> x \<Longrightarrow> 0 \<le> round32 x"
  by (simp add: round32_def roundTo_nonneg)

lemma round32_nonpos: "x \<le> 0 \<Longrightarrow> round32 x \<le> 0"
  by (simp add: round32_def roundTo_nonpos)

lemma round64_le_fixed: "round64 r = r \<Longrightarrow> z \<le> r \<Longrightarrow> round64 z \<le> r"
  unfolding round64_def by (rule roundTo_le_fixed) simp_all

lemma round64_ge_fixed: "round64 r = r \<Longrightarrow> r \<le> z \<Longrightarrow> r \<le> round64 z"
  unfolding round64_def by (rule roundTo_ge_fixed) simp_all

lemma round32_le_fixed: "round32 r = r \<Longrightarrow> z \<le> r \<Longrightarrow> round32 z \<le> r"
  unfolding round32_def by (rule roundTo_le_fixed) simp_all

lemma round32_ge_fixed: "round32 r = r \<Longrightarrow> r \<le> z \<Longrightarrow> r \<le> round32 z"
  unfolding round32_def by (rule roundTo_ge_fixed) simp_all

lemma round32_imp_round64: "round32 r = r \<Longrightarrow> round64 r = r"
  unfolding round32_def round64_def by (rule roundTo_widen[of 24 53 "- 1074" "- 149"]) simp_all

lemma round64_dyadic: "\<bar>m\<bar> \<le> 2 ^ 53 \<Longrightarrow> - 1074 \<le> q \<Longrightarrow> round64 (of_int m * 2 powi q) = of_int m * 2 powi q"
  unfolding round64_def by (rule roundTo_dyadic) simp_all

lemma round32_dyadic: "\<bar>m\<bar> \<le> 2 ^ 24 \<Longrightarrow> - 149 \<le> q \<Longrightarrow> round32 (of_int m * 2 powi q) = of_int m * 2 powi q"
  unfolding round32_def by (rule roundTo_dyadic) simp_all

lemma round64_of_int: "\<bar>n\<bar> \<le> 2 ^ 53 \<Longrightarrow> round64 (of_int n) = of_int n"
  unfolding round64_def by (rule roundTo_of_int) simp_all

lemma round64_floor_fixed: "round64 x = x \<Longrightarrow> round64 (of_int \<lfloor>x\<rfloor>) = of_int \<lfloor>x\<rfloor>"
  unfolding round64_def by (rule roundTo_floor_fixed) simp_all

lemma round64_idem [simp]: "round64 (round64 x) = round64 x"
  unfolding round64_def by (rule roundTo_idem) simp

lemma round32_idem [simp]: "round32 (round32 x) = round32 x"
  unfolding round32_def by (rule roundTo_idem) simp

subsection \<open>Comparisons\<close>

lemma nle_Num [simp]: "nle (Num a) (Num b) \<longleftrightarrow> a \<le> b"
  by (simp add: nle_def)

lemma nlt_Num [simp]: "nlt (Num a) (Num b) \<longleftrightarrow> a < b"
  by (simp add: nlt_def)

lemma nle_NaN [simp]: "\<not> nle NaN b" "\<not> nle a NaN"
  by (simp_all add: nle_def)

lemma nlt_NaN [simp]: "\<not> nlt NaN b" "\<not> nlt a NaN"
  by (simp_all add: nlt_def)

lemma nle_PosInf [simp]: "nle a PosInf \<longleftrightarrow> a \<noteq> NaN"
  by (simp add: nle_def)

lemma nle_NegInf [simp]: "nle NegInf b \<longleftrightarrow> b \<noteq> NaN"
  by (simp add: nle_def)

lemma nle_zero_iff: "nle (Num 0) v \<longleftrightarrow> v = PosInf \<or> (v \<noteq> NaN \<and> \<not> isInf v \<and> 0 \<le> val v)"
  by (cases v) (simp_all add: nle_def)

lemma nle_trans: "nle a b \<Longrightarrow> nle b c \<Longrightarrow> nle a c"
  by (cases a; cases b; cases c) (simp_all add: nle_def)

lemma nle_refl: "a \<noteq> NaN \<Longrightarrow> nle a a"
  by (cases a) (simp_all add: nle_def)

lemma not_nlt_iff: "a \<noteq> NaN \<Longrightarrow> b \<noteq> NaN \<Longrightarrow> \<not> nlt a b \<longleftrightarrow> nle b a"
  by (cases a; cases b) (auto simp: nle_def nlt_def)

lemma nlt_imp_nle: "nlt a b \<Longrightarrow> nle a b"
  by (cases a; cases b) (auto simp: nle_def nlt_def)

subsection \<open>Packing a result\<close>

lemma signedZero_simps [simp]:
  "signedZero neg \<noteq> NaN" "\<not> isInf (signedZero neg)" "val (signedZero neg) = 0"
  "isZero (signedZero neg)" "signedZero neg \<noteq> PosInf" "signedZero neg \<noteq> NegInf"
  "signedZero False = Num 0" "signedZero True = NegZero"
  by (simp_all add: signedZero_def)

lemma signedInf_simps [simp]:
  "signedInf neg \<noteq> NaN" "isInf (signedInf neg)" "signedInf False = PosInf"
  "signedInf True = NegInf"
  by (simp_all add: signedInf_def)

lemma pack_zero [simp]: "pack rnd bound neg 0 = signedZero neg"
  by (simp add: pack_def)

lemma pack_not_NaN [simp]: "pack rnd bound neg z \<noteq> NaN"
  by (simp add: pack_def Let_def)

lemma pack_eval:
  "z \<noteq> 0 \<Longrightarrow> rnd z = r \<Longrightarrow> r \<noteq> 0 \<Longrightarrow> \<bar>r\<bar> < bound \<Longrightarrow> pack rnd bound neg z = Num r"
  by (simp add: pack_def Let_def)

lemma pack_overflow:
  "z \<noteq> 0 \<Longrightarrow> rnd z = r \<Longrightarrow> bound \<le> \<bar>r\<bar> \<Longrightarrow> pack rnd bound neg z = signedInf (z < 0)"
  by (simp add: pack_def Let_def)

lemma pack_le:
  assumes "rnd z \<le> m" "z = 0 \<longrightarrow> 0 \<le> m" "m < bound" "0 \<le> z \<longrightarrow> 0 \<le> rnd z"
  shows "nle (pack rnd bound neg z) (Num m)"
proof (cases "z = 0")
  case True
  with assms(2) show ?thesis by (simp add: nle_def)
next
  case False
  show ?thesis
  proof (cases "bound \<le> \<bar>rnd z\<bar>")
    case True
    have "z < 0"
    proof (rule ccontr)
      assume "\<not> z < 0"
      with assms(4) have "0 \<le> rnd z" by simp
      with True assms(1,3) show False by simp
    qed
    with True False show ?thesis by (simp add: pack_def Let_def nle_def)
  next
    case nb: False
    with False assms(1) show ?thesis by (simp add: pack_def Let_def nle_def)
  qed
qed

lemma pack_ge:
  assumes "m \<le> rnd z" "z = 0 \<longrightarrow> m \<le> 0" "- bound < m" "z \<le> 0 \<longrightarrow> rnd z \<le> 0"
  shows "nle (Num m) (pack rnd bound neg z)"
proof (cases "z = 0")
  case True
  with assms(2) show ?thesis by (simp add: nle_def)
next
  case False
  show ?thesis
  proof (cases "bound \<le> \<bar>rnd z\<bar>")
    case True
    have "\<not> z < 0"
    proof
      assume "z < 0"
      with assms(4) have "rnd z \<le> 0" by simp
      with True assms(1,3) show False by simp
    qed
    with True False show ?thesis by (simp add: pack_def Let_def nle_def)
  next
    case nb: False
    with False assms(1) show ?thesis by (simp add: pack_def Let_def nle_def)
  qed
qed

lemma pack_nonneg:
  assumes "0 \<le> z" "\<And>x. 0 \<le> x \<Longrightarrow> 0 \<le> rnd x"
  shows "nle (Num 0) (pack rnd bound neg z)"
proof (cases "z = 0")
  case True
  then show ?thesis by (simp add: nle_def)
next
  case False
  with assms(1) have "0 < z" by simp
  moreover from assms have "0 \<le> rnd z" by simp
  ultimately show ?thesis by (simp add: pack_def Let_def nle_def)
qed

lemma pack_pos_not_NegZero:
  "0 \<le> z \<Longrightarrow> pack rnd bound False z \<noteq> NegZero"
  by (simp add: pack_def Let_def signedZero_def signedInf_def)

subsection \<open>Values of binary32 and of binary64\<close>

lemma toFloat32_NaN_iff [simp]: "toFloat32 v = NaN \<longleftrightarrow> v = NaN"
  by (cases v) (simp_all add: fin32_def)

lemma toFloat32_fixed_Num:
  assumes "toFloat32 (Num m) = Num m"
  shows "round32 m = m" and "\<bar>m\<bar> < 2 ^ 128"
proof -
  from assms have p: "pack round32 (2 ^ 128) False m = Num m" by (simp add: fin32_def)
  show r: "round32 m = m"
  proof (cases "m = 0")
    case True
    then show ?thesis by simp
  next
    case False
    with p show ?thesis
      by (simp add: pack_def Let_def signedInf_def signedZero_def split: if_splits)
  qed
  show "\<bar>m\<bar> < 2 ^ 128"
  proof (rule ccontr)
    assume "\<not> \<bar>m\<bar> < 2 ^ 128"
    then have big: "2 ^ 128 \<le> \<bar>round32 m\<bar>" and "m \<noteq> 0" unfolding r by auto
    then have "pack round32 (2 ^ 128) False m = signedInf (m < 0)"
      by (intro pack_overflow[OF _ refl])
    with p show False by (simp add: signedInf_def split: if_splits)
  qed
qed

lemma toFloat32_Num_fixedI:
  "round32 m = m \<Longrightarrow> \<bar>m\<bar> < 2 ^ 128 \<Longrightarrow> toFloat32 (Num m) = Num m"
  by (simp add: fin32_def pack_def Let_def)

lemma toFloat32_le:
  assumes "nle z m" "toFloat32 m = m"
  shows "nle (toFloat32 z) m"
proof (cases z)
  case (Num a)
  show ?thesis
  proof (cases m)
    case m: (Num mv)
    from assms(2) m have "toFloat32 (Num mv) = Num mv" by simp
    then have f: "round32 mv = mv" "\<bar>mv\<bar> < 2 ^ 128"
      by (rule toFloat32_fixed_Num)+
    from assms(1) Num m have le: "a \<le> mv" by simp
    have "nle (pack round32 (2 ^ 128) False a) (Num mv)"
    proof (rule pack_le)
      show "round32 a \<le> mv" using f(1) le by (rule round32_le_fixed)
      show "a = 0 \<longrightarrow> 0 \<le> mv" using le by simp
      show "mv < 2 ^ 128" using f(2) by simp
      show "0 \<le> a \<longrightarrow> 0 \<le> round32 a" by (simp add: round32_nonneg)
    qed
    with Num m show ?thesis by (simp add: fin32_def)
  next
    case NegZero
    from assms(1) Num NegZero have le: "a \<le> 0" by (simp add: nle_def)
    have "nle (pack round32 (2 ^ 128) False a) (Num 0)"
    proof (rule pack_le)
      show "round32 a \<le> 0" using le by (rule round32_nonpos)
      show "0 \<le> a \<longrightarrow> 0 \<le> round32 a" by (simp add: round32_nonneg)
    qed simp_all
    then have "nle (pack round32 (2 ^ 128) False a) NegZero" by (simp add: nle_def)
    with Num NegZero show ?thesis by (simp add: fin32_def)
  next
    case PosInf
    with Num show ?thesis by (simp add: fin32_def)
  next
    case NegInf
    with assms(1) Num show ?thesis by (simp add: nle_def)
  next
    case NaN
    with assms(1) show ?thesis by simp
  qed
qed (use assms in simp_all)

lemma toFloat32_ge:
  assumes "nle m z" "toFloat32 m = m"
  shows "nle m (toFloat32 z)"
proof (cases z)
  case (Num a)
  show ?thesis
  proof (cases m)
    case m: (Num mv)
    from assms(2) m have "toFloat32 (Num mv) = Num mv" by simp
    then have f: "round32 mv = mv" "\<bar>mv\<bar> < 2 ^ 128"
      by (rule toFloat32_fixed_Num)+
    from assms(1) Num m have le: "mv \<le> a" by simp
    have "nle (Num mv) (pack round32 (2 ^ 128) False a)"
    proof (rule pack_ge)
      show "mv \<le> round32 a" using f(1) le by (rule round32_ge_fixed)
      show "a = 0 \<longrightarrow> mv \<le> 0" using le by simp
      show "- (2 ^ 128) < mv" using f(2) by simp
      show "a \<le> 0 \<longrightarrow> round32 a \<le> 0" by (simp add: round32_nonpos)
    qed
    with Num m show ?thesis by (simp add: fin32_def)
  next
    case NegZero
    from assms(1) Num NegZero have le: "0 \<le> a" by (simp add: nle_def)
    have "nle (Num 0) (pack round32 (2 ^ 128) False a)"
      using le by (rule pack_nonneg) (rule round32_nonneg)
    then have "nle NegZero (pack round32 (2 ^ 128) False a)" by (simp add: nle_def)
    with Num NegZero show ?thesis by (simp add: fin32_def)
  next
    case NegInf
    with Num show ?thesis by (simp add: fin32_def)
  next
    case PosInf
    with assms(1) Num show ?thesis by (simp add: nle_def)
  next
    case NaN
    with assms(1) show ?thesis by simp
  qed
qed (use assms in simp_all)

lemma stored_le: "nle z m \<Longrightarrow> stored field m = m \<Longrightarrow> nle (stored field z) m"
  by (cases field) (simp_all add: toFloat32_le)

lemma stored_ge: "nle m z \<Longrightarrow> stored field m = m \<Longrightarrow> nle m (stored field z)"
  by (cases field) (simp_all add: toFloat32_ge)

lemma stored_NaN_iff [simp]: "stored field v = NaN \<longleftrightarrow> v = NaN"
  by (cases field) simp_all

lemma stored_zero [simp]: "stored field (Num 0) = Num 0"
  by (cases field) (simp_all add: fin32_def)

subsection \<open>Math.min\<close>

lemma nmin_NaN [simp]: "nmin NaN b = NaN" "nmin a NaN = NaN"
  by (simp_all add: nmin_def)

lemma nmin_le_right: "a \<noteq> NaN \<Longrightarrow> b \<noteq> NaN \<Longrightarrow> nle (nmin a b) b"
  by (cases a; cases b) (auto simp: nmin_def nle_def nlt_def)

lemma nmin_le_left: "a \<noteq> NaN \<Longrightarrow> b \<noteq> NaN \<Longrightarrow> nle (nmin a b) a"
  by (cases a; cases b) (auto simp: nmin_def nle_def nlt_def)

lemma nmin_cases: "nmin a b = a \<or> nmin a b = b \<or> nmin a b = NaN"
  by (simp add: nmin_def)

lemma nmin_lower: "nle c a \<Longrightarrow> nle c b \<Longrightarrow> nle c (nmin a b)"
  using nmin_cases[of a b] by (auto simp: nmin_def)

lemma nmin_Num_left: "nle a (Num m) \<Longrightarrow> nmin a (Num m) = a"
  by (cases a) (auto simp: nmin_def nle_def nlt_def)

lemma nmin_Num_right: "nle (Num m) a \<Longrightarrow> a \<noteq> NegZero \<Longrightarrow> nmin a (Num m) = Num m"
  by (cases a) (auto simp: nmin_def nle_def nlt_def)

section \<open>Arrays: reading after writing\<close>

lemma length_upd [simp]: "length (upd a i v) = length a"
  by (simp add: upd_def)

lemma rd_upd:
  "rd (Float32Array (upd a i v)) j
     = (if j = i \<and> 0 \<le> i \<and> i < int (length a) then toFloat32 v else rd (Float32Array a) j)"
  by (auto simp: rd_def upd_def nat_eq_iff)

lemma ex_from_split:
  fixes x c :: int
  assumes "x < c"
  shows "(\<exists>x'. x \<le> x' \<and> x' < c \<and> P x') \<longleftrightarrow> P x \<or> (\<exists>x'. x + 1 \<le> x' \<and> x' < c \<and> P x')"
proof
  assume "\<exists>x'. x \<le> x' \<and> x' < c \<and> P x'"
  then obtain x' where h: "x \<le> x'" "x' < c" "P x'" by blast
  show "P x \<or> (\<exists>x'. x + 1 \<le> x' \<and> x' < c \<and> P x')"
  proof (cases "x' = x")
    case True with h show ?thesis by simp
  next
    case False
    with h have "x + 1 \<le> x'" by simp
    with h show ?thesis by blast
  qed
next
  assume "P x \<or> (\<exists>x'. x + 1 \<le> x' \<and> x' < c \<and> P x')"
  then show "\<exists>x'. x \<le> x' \<and> x' < c \<and> P x'"
  proof
    assume "P x" with assms show ?thesis by (intro exI[of _ x]) simp
  next
    assume "\<exists>x'. x + 1 \<le> x' \<and> x' < c \<and> P x'"
    then obtain x' where "x + 1 \<le> x'" "x' < c" "P x'" by blast
    then show ?thesis by (intro exI[of _ x']) simp
  qed
qed

lemma write2_step:
  "(if A \<and> 0 \<le> k \<and> k < int (length next) then toFloat32 (F k)
    else rd (Float32Array (upd (upd next i (F i)) j (F j))) k)
   = (if ((k = i \<or> k = j) \<or> A) \<and> 0 \<le> k \<and> k < int (length next) then toFloat32 (F k)
      else rd (Float32Array next) k)"
  by (auto simp: rd_upd)

lemma write1_step:
  "(if A \<and> 0 \<le> k \<and> k < int (length next) then toFloat32 (F k)
    else rd (Float32Array (upd next i (F i))) k)
   = (if (k = i \<or> A) \<and> 0 \<le> k \<and> k < int (length next) then toFloat32 (F k)
      else rd (Float32Array next) k)"
  by (auto simp: rd_upd)

section \<open>The loops of diffusePheromones, cell by cell\<close>

lemma length_edgeRows [simp]: "length (edgeRows field cols rows e x next) = length next"
  by (induction field cols rows e x "next" rule: edgeRows.induct)
     (subst edgeRows.simps, simp)

lemma length_edgeCols [simp]: "length (edgeCols field cols rows e y next) = length next"
  by (induction field cols rows e y "next" rule: edgeCols.induct)
     (subst edgeCols.simps, simp)

lemma length_interiorY [simp]: "length (interiorY field cols rows d e x y next) = length next"
  by (induction field cols rows d e x y "next" rule: interiorY.induct)
     (subst interiorY.simps, simp)

lemma length_interiorX [simp]: "length (interiorX field cols rows d e x next) = length next"
  by (induction field cols rows d e x "next" rule: interiorX.induct)
     (subst interiorX.simps, simp)

lemma rd_edgeRows:
  "rd (Float32Array (edgeRows field cols rows e x next)) k =
     (if (\<exists>x'. x \<le> x' \<and> x' < cols \<and> (k = x' \<or> k = x' + (rows - 1) * cols))
         \<and> 0 \<le> k \<and> k < int (length next)
      then toFloat32 (nmul (rd field k) e) else rd (Float32Array next) k)"
proof (induction field cols rows e x "next" rule: edgeRows.induct)
  case (1 field cols rows e x "next")
  show ?case
  proof (cases "x < cols")
    case False
    then have e1: "edgeRows field cols rows e x next = next" by (subst edgeRows.simps) simp
    have e2: "(\<exists>x'. x \<le> x' \<and> x' < cols \<and> (k = x' \<or> k = x' + (rows - 1) * cols)) = False"
      using False by auto
    show ?thesis unfolding e1 e2 by simp
  next
    case True
    let ?P = "\<lambda>x'. k = x' \<or> k = x' + (rows - 1) * cols"
    have eq: "edgeRows field cols rows e x next = edgeRows field cols rows e (x + 1)
             (upd (upd next x (nmul (rd field x) e))
                  (x + (rows - 1) * cols)
                  (nmul (rd field (x + (rows - 1) * cols)) e))"
      using True by (subst edgeRows.simps) simp
    show ?thesis
      unfolding eq "1.IH"[OF True] ex_from_split[of x cols ?P, OF True] length_upd
      by (rule write2_step[where F = "\<lambda>j. nmul (rd field j) e"])
  qed
qed

lemma rd_edgeCols:
  "rd (Float32Array (edgeCols field cols rows e y next)) k =
     (if (\<exists>y'. y \<le> y' \<and> y' < rows \<and> (k = y' * cols \<or> k = cols - 1 + y' * cols))
         \<and> 0 \<le> k \<and> k < int (length next)
      then toFloat32 (nmul (rd field k) e) else rd (Float32Array next) k)"
proof (induction field cols rows e y "next" rule: edgeCols.induct)
  case (1 field cols rows e y "next")
  show ?case
  proof (cases "y < rows")
    case False
    then have e1: "edgeCols field cols rows e y next = next" by (subst edgeCols.simps) simp
    have e2: "(\<exists>y'. y \<le> y' \<and> y' < rows \<and> (k = y' * cols \<or> k = cols - 1 + y' * cols)) = False"
      using False by auto
    show ?thesis unfolding e1 e2 by simp
  next
    case True
    let ?P = "\<lambda>y'. k = y' * cols \<or> k = cols - 1 + y' * cols"
    have eq: "edgeCols field cols rows e y next = edgeCols field cols rows e (y + 1)
             (upd (upd next (y * cols) (nmul (rd field (y * cols)) e))
                  (cols - 1 + y * cols)
                  (nmul (rd field (cols - 1 + y * cols)) e))"
      using True by (subst edgeCols.simps) simp
    show ?thesis
      unfolding eq "1.IH"[OF True] ex_from_split[of y rows ?P, OF True] length_upd
      by (rule write2_step[where F = "\<lambda>j. nmul (rd field j) e"])
  qed
qed

lemma rd_interiorY:
  "rd (Float32Array (interiorY field cols rows d e x y next)) k =
     (if (\<exists>y'. y \<le> y' \<and> y' < rows - 1 \<and> k = x + y' * cols)
         \<and> 0 \<le> k \<and> k < int (length next)
      then toFloat32 (diffuseCell field cols d e k) else rd (Float32Array next) k)"
proof (induction field cols rows d e x y "next" rule: interiorY.induct)
  case (1 field cols rows d e x y "next")
  show ?case
  proof (cases "y < rows - 1")
    case False
    then have e1: "interiorY field cols rows d e x y next = next" by (subst interiorY.simps) simp
    have e2: "(\<exists>y'. y \<le> y' \<and> y' < rows - 1 \<and> k = x + y' * cols) = False"
      using False by auto
    show ?thesis unfolding e1 e2 by simp
  next
    case True
    let ?P = "\<lambda>y'. k = x + y' * cols"
    have eq: "interiorY field cols rows d e x y next = interiorY field cols rows d e x (y + 1)
             (upd next (x + y * cols) (diffuseCell field cols d e (x + y * cols)))"
      using True by (subst interiorY.simps) simp
    show ?thesis
      unfolding eq "1.IH"[OF True] ex_from_split[of y "rows - 1" ?P, OF True] length_upd
      by (rule write1_step[where F = "diffuseCell field cols d e"])
  qed
qed

lemma rd_interiorX:
  "rd (Float32Array (interiorX field cols rows d e x next)) k =
     (if (\<exists>x'. x \<le> x' \<and> x' < cols - 1 \<and> (\<exists>y'. 1 \<le> y' \<and> y' < rows - 1 \<and> k = x' + y' * cols))
         \<and> 0 \<le> k \<and> k < int (length next)
      then toFloat32 (diffuseCell field cols d e k) else rd (Float32Array next) k)"
proof (induction field cols rows d e x "next" rule: interiorX.induct)
  case (1 field cols rows d e x "next")
  show ?case
  proof (cases "x < cols - 1")
    case False
    then have e1: "interiorX field cols rows d e x next = next" by (subst interiorX.simps) simp
    have e2: "(\<exists>x'. x \<le> x' \<and> x' < cols - 1 \<and> (\<exists>y'. 1 \<le> y' \<and> y' < rows - 1 \<and> k = x' + y' * cols)) = False"
      using False by auto
    show ?thesis unfolding e1 e2 by simp
  next
    case True
    let ?P = "\<lambda>x'. \<exists>y'. 1 \<le> y' \<and> y' < rows - 1 \<and> k = x' + y' * cols"
    have eq: "interiorX field cols rows d e x next = interiorX field cols rows d e (x + 1)
             (interiorY field cols rows d e x 1 next)"
      using True by (subst interiorX.simps) simp
    show ?thesis
      unfolding eq "1.IH"[OF True] ex_from_split[of x "cols - 1" ?P, OF True]
      by (auto simp: rd_interiorY)
  qed
qed

section \<open>Row-major indices\<close>

lemma cell_index_bounds:
  fixes x y cols rows :: int
  assumes "0 \<le> x" "x < cols" "0 \<le> y" "y < rows"
  shows "0 \<le> x + y * cols" and "x + y * cols < cols * rows"
proof -
  have c: "0 \<le> cols" using assms by simp
  from assms c show "0 \<le> x + y * cols" by simp
  have "y * cols \<le> (rows - 1) * cols"
    using assms c by (intro mult_right_mono) simp_all
  with assms have "x + y * cols < cols + (rows - 1) * cols" by linarith
  also have "\<dots> = cols * rows" by (simp add: algebra_simps)
  finally show "x + y * cols < cols * rows" .
qed

lemma cell_index_inj:
  fixes x y x' y' cols :: int
  assumes "0 \<le> x" "x < cols" "0 \<le> x'" "x' < cols" "x + y * cols = x' + y' * cols"
  shows "x = x' \<and> y = y'"
proof -
  have "x = (x + y * cols) mod cols" using assms(1,2) by simp
  also have "\<dots> = (x' + y' * cols) mod cols" by (simp only: assms(5))
  also have "\<dots> = x'" using assms(3,4) by simp
  finally have x: "x = x'" .
  have "cols \<noteq> 0" using assms by auto
  with assms(5) x show ?thesis by simp
qed

section \<open>Coordinates outside the grid\<close>

text \<open>
  C5. For integer coordinates outside \<open>[0, cols) \<times> [0, rows)\<close>, \<^verbatim>\<open>depositPheromone\<close>
  returns false and the field is what it was, and \<^verbatim>\<open>getPheromoneAt\<close> returns 0.
  For coordinates inside, \<^verbatim>\<open>depositPheromone\<close> returns true and
  \<^verbatim>\<open>getPheromoneAt\<close> returns what the array holds at \<open>x + y * cols\<close>, which is a
  cell of the field when the field has \<open>cols * rows\<close> cells. Neither function has a
  \<^verbatim>\<open>throw\<close>, and no operation they use raises: both are total functions here, with
  no error value.
\<close>

theorem out_of_bounds_total:
  "(x < 0 \<or> cols \<le> x \<or> y < 0 \<or> rows \<le> y \<longrightarrow>
      depositPheromone field cols rows x y amount maxPheromone = (False, field)
      \<and> getPheromoneAt field cols rows x y = Num 0)
   \<and> (0 \<le> x \<and> x < cols \<and> 0 \<le> y \<and> y < rows \<longrightarrow>
      fst (depositPheromone field cols rows x y amount maxPheromone) = True
      \<and> getPheromoneAt field cols rows x y = rd field (x + y * cols)
      \<and> (length (cells field) = nat (cols * rows) \<longrightarrow>
           getPheromoneAt field cols rows x y = cells field ! nat (x + y * cols)))"
proof (intro conjI impI)
  assume "x < 0 \<or> cols \<le> x \<or> y < 0 \<or> rows \<le> y"
  then show "depositPheromone field cols rows x y amount maxPheromone = (False, field)"
    and "getPheromoneAt field cols rows x y = Num 0"
    by (auto simp: depositPheromone_def getPheromoneAt_def)
next
  assume inb: "0 \<le> x \<and> x < cols \<and> 0 \<le> y \<and> y < rows"
  then show "fst (depositPheromone field cols rows x y amount maxPheromone) = True"
    by (simp add: depositPheromone_def Let_def)
  from inb show g: "getPheromoneAt field cols rows x y = rd field (x + y * cols)"
    by (simp add: getPheromoneAt_def)
  assume "length (cells field) = nat (cols * rows)"
  moreover from inb have "0 \<le> x + y * cols" "x + y * cols < cols * rows"
    by (simp_all add: cell_index_bounds)
  ultimately show "getPheromoneAt field cols rows x y = cells field ! nat (x + y * cols)"
    unfolding g by (simp add: rd_def)
qed

theorem out_of_bounds_total_witness:
  "depositPheromone (Float32Array [Num 1, Num 2, Num 3, Num 4]) 2 2 2 0 (Num 5) (Num 10)
     = (False, Float32Array [Num 1, Num 2, Num 3, Num 4])
   \<and> getPheromoneAt (Float32Array [Num 1, Num 2, Num 3, Num 4]) 2 2 2 0 = Num 0
   \<and> fst (depositPheromone (Float32Array [Num 1, Num 2, Num 3, Num 4]) 2 2 1 1 (Num 5) (Num 10)) = True
   \<and> getPheromoneAt (Float32Array [Num 1, Num 2, Num 3, Num 4]) 2 2 1 1 = Num 4"
  using out_of_bounds_total [of 2 2 0 2 "Float32Array [Num 1, Num 2, Num 3, Num 4]" "Num 5" "Num 10"]
        out_of_bounds_total [of 1 2 1 2 "Float32Array [Num 1, Num 2, Num 3, Num 4]" "Num 5" "Num 10"]
  by (simp add: rd_def)

section \<open>diffusePheromones, cell by cell\<close>

lemma length_diffusePheromones [simp]:
  "length (cells (diffusePheromones field cols rows d e)) = length (cells field)"
  by (simp add: diffusePheromones_def newFloat32Array_def)

lemma if_chain:
  "(if A \<and> R then p else if B \<and> R then q else if C \<and> R then q' else (if R then z else n))
   = (if R then (if A then p else if B then q else if C then q' else z) else n)"
  by simp

lemma rd_diffusePheromones:
  "rd (diffusePheromones field cols rows d e) k =
     (if 0 \<le> k \<and> k < int (length (cells field)) then
        if (\<exists>x'. 1 \<le> x' \<and> x' < cols - 1 \<and> (\<exists>y'. 1 \<le> y' \<and> y' < rows - 1 \<and> k = x' + y' * cols))
        then toFloat32 (diffuseCell field cols d e k)
        else if (\<exists>y'. 0 \<le> y' \<and> y' < rows \<and> (k = y' * cols \<or> k = cols - 1 + y' * cols))
        then toFloat32 (nmul (rd field k) e)
        else if (\<exists>x'. 0 \<le> x' \<and> x' < cols \<and> (k = x' \<or> k = x' + (rows - 1) * cols))
        then toFloat32 (nmul (rd field k) e)
        else Num 0
      else NaN)"
proof -
  have z: "rd (Float32Array (replicate (length (cells field)) (Num 0))) k
           = (if 0 \<le> k \<and> k < int (length (cells field)) then Num 0 else NaN)"
    by (auto simp: rd_def nat_less_iff)
  show ?thesis
    unfolding diffusePheromones_def Let_def rd_interiorX rd_edgeCols rd_edgeRows
      length_edgeRows length_edgeCols newFloat32Array_def length_replicate z
    by (rule if_chain)
qed

lemma diffuse_boundary:
  assumes len: "length (cells field) = nat (cols * rows)"
    and xy: "0 \<le> x" "x < cols" "0 \<le> y" "y < rows"
    and edge: "x = 0 \<or> x = cols - 1 \<or> y = 0 \<or> y = rows - 1"
  shows "rd (diffusePheromones field cols rows d e) (x + y * cols)
         = toFloat32 (nmul (rd field (x + y * cols)) e)"
proof -
  let ?k = "x + y * cols"
  have rng: "0 \<le> ?k" "?k < int (length (cells field))"
    using cell_index_bounds[OF xy] len by simp_all
  have notint: "\<not> (\<exists>x'. 1 \<le> x' \<and> x' < cols - 1 \<and> (\<exists>y'. 1 \<le> y' \<and> y' < rows - 1 \<and> ?k = x' + y' * cols))"
  proof
    assume "\<exists>x'. 1 \<le> x' \<and> x' < cols - 1 \<and> (\<exists>y'. 1 \<le> y' \<and> y' < rows - 1 \<and> ?k = x' + y' * cols)"
    then obtain x' y' where h: "1 \<le> x'" "x' < cols - 1" "1 \<le> y'" "y' < rows - 1"
      "?k = x' + y' * cols" by blast
    have "x = x' \<and> y = y'"
      by (rule cell_index_inj[OF xy(1,2) _ _ h(5)]) (use h in simp_all)
    with h edge show False by auto
  qed
  have isedge: "(\<exists>y'. 0 \<le> y' \<and> y' < rows \<and> (?k = y' * cols \<or> ?k = cols - 1 + y' * cols))
     \<or> (\<exists>x'. 0 \<le> x' \<and> x' < cols \<and> (?k = x' \<or> ?k = x' + (rows - 1) * cols))"
    using edge
  proof (elim disjE)
    assume "x = 0" with xy show ?thesis by (intro disjI1 exI[of _ y]) simp
  next
    assume "x = cols - 1" with xy show ?thesis by (intro disjI1 exI[of _ y]) simp
  next
    assume "y = 0" with xy show ?thesis by (intro disjI2 exI[of _ x]) simp
  next
    assume "y = rows - 1" with xy show ?thesis by (intro disjI2 exI[of _ x]) simp
  qed
  show ?thesis
    unfolding rd_diffusePheromones using rng notint isedge by (simp only: if_True if_False simp_thms) auto
qed

lemma diffuse_interior:
  assumes len: "length (cells field) = nat (cols * rows)"
    and xy: "1 \<le> x" "x \<le> cols - 2" "1 \<le> y" "y \<le> rows - 2"
  shows "rd (diffusePheromones field cols rows d e) (x + y * cols)
         = toFloat32 (diffuseCell field cols d e (x + y * cols))"
proof -
  let ?k = "x + y * cols"
  have "0 \<le> ?k" "?k < cols * rows"
    using cell_index_bounds[of x cols y rows] xy by simp_all
  then have rng: "0 \<le> ?k" "?k < int (length (cells field))"
    using len by simp_all
  have isint: "\<exists>x'. 1 \<le> x' \<and> x' < cols - 1 \<and> (\<exists>y'. 1 \<le> y' \<and> y' < rows - 1 \<and> ?k = x' + y' * cols)"
    using xy by (intro exI[of _ x] conjI exI[of _ y]) simp_all
  show ?thesis
    unfolding rd_diffusePheromones using rng isint by (simp only: if_True simp_thms)
qed

section \<open>Evaluating the arithmetic at given numbers\<close>

lemma round64_fixedI:
  "x = of_int m * 2 powi q \<Longrightarrow> \<bar>m\<bar> \<le> 2 ^ 53 \<Longrightarrow> - 1074 \<le> q \<Longrightarrow> round64 x = x"
  by (simp add: round64_dyadic)

lemma round32_fixedI:
  "x = of_int m * 2 powi q \<Longrightarrow> \<bar>m\<bar> \<le> 2 ^ 24 \<Longrightarrow> - 149 \<le> q \<Longrightarrow> round32 x = x"
  by (simp add: round32_dyadic)

lemma round64_numeral [simp]: "(numeral k :: int) \<le> 2 ^ 53 \<Longrightarrow> round64 (numeral k) = numeral k"
  using round64_of_int[of "numeral k"] by simp

lemma round32_numeral [simp]: "(numeral k :: int) \<le> 2 ^ 24 \<Longrightarrow> round32 (numeral k) = numeral k"
  using round32_dyadic[of "numeral k" 0] by simp

lemma round64_one [simp]: "round64 1 = 1"
  using round64_of_int[of 1] by simp

lemma round32_one [simp]: "round32 1 = 1"
  using round32_dyadic[of 1 0] by simp

lemmas number_ops = nadd_def nsub_def nmul_def ndiv_def nmin_def fin64_def fin32_def pack_def Let_def

lemma round32_tenth:
  "round32 (3602879701896397 / 36028797018963968) = 13421773 / 134217728"
proof (rule round32_evalI[where e = "- 4" and q = "- 27" and n = 13421773])
  show "roundNE (3602879701896397 / 36028797018963968 / 2 powi (- 27)) = 13421773"
    by (rule roundNE_eqI) simp_all
qed simp_all

lemma round64_tenth:
  "round64 (3602879701896397 / 36028797018963968) = 3602879701896397 / 36028797018963968"
  by (rule round64_fixedI[where m = 3602879701896397 and q = "- 55"]) simp_all

section \<open>The stencil\<close>

text \<open>
  C1. The stencil of \<^verbatim>\<open>diffusePheromones\<close>. For a field of \<open>cols * rows\<close> cells
  (\<open>cols, rows \<ge> 1\<close>) and any two rates, the result has the length of the field, every
  cell on the boundary (\<open>x = 0\<close>, \<open>x = cols - 1\<close>, \<open>y = 0\<close> or \<open>y = rows - 1\<close>) is
  the old value times the evaporation rate, and every interior cell is
  \<open>(center * (1 - d) + (sum of the 8 neighbours) / 8 * d) * e\<close>, the neighbours summed in
  the order of the source, every operation being the binary64 one and the result
  converted to binary32, as the \<^verbatim>\<open>Float32Array\<close> that is returned stores it. Cells are
  read with \<^verbatim>\<open>getPheromoneAt\<close>.
\<close>

theorem diffuse_stencil:
  assumes "1 \<le> cols" "1 \<le> rows" "length (cells field) = nat (cols * rows)"
  shows "length (cells (diffusePheromones field cols rows d e)) = length (cells field)
    \<and> (\<forall>x y. 0 \<le> x \<and> x < cols \<and> 0 \<le> y \<and> y < rows
            \<and> (x = 0 \<or> x = cols - 1 \<or> y = 0 \<or> y = rows - 1) \<longrightarrow>
          getPheromoneAt (diffusePheromones field cols rows d e) cols rows x y
          = toFloat32 (nmul (getPheromoneAt field cols rows x y) e))
    \<and> (\<forall>x y. 1 \<le> x \<and> x \<le> cols - 2 \<and> 1 \<le> y \<and> y \<le> rows - 2 \<longrightarrow>
          getPheromoneAt (diffusePheromones field cols rows d e) cols rows x y
          = toFloat32
             (nmul (nadd (nmul (getPheromoneAt field cols rows x y) (nsub (Num 1) d))
                         (nmul (ndiv
                            (nadd (nadd (nadd (nadd (nadd (nadd (nadd
                              (getPheromoneAt field cols rows (x - 1) y)
                              (getPheromoneAt field cols rows (x + 1) y))
                              (getPheromoneAt field cols rows x (y - 1)))
                              (getPheromoneAt field cols rows x (y + 1)))
                              (getPheromoneAt field cols rows (x - 1) (y - 1)))
                              (getPheromoneAt field cols rows (x + 1) (y - 1)))
                              (getPheromoneAt field cols rows (x - 1) (y + 1)))
                              (getPheromoneAt field cols rows (x + 1) (y + 1)))
                            (Num 8))
                            d))
                   e))"
proof (intro conjI allI impI)
  show "length (cells (diffusePheromones field cols rows d e)) = length (cells field)" by simp
next
  fix x y
  assume h: "0 \<le> x \<and> x < cols \<and> 0 \<le> y \<and> y < rows
            \<and> (x = 0 \<or> x = cols - 1 \<or> y = 0 \<or> y = rows - 1)"
  then have "rd (diffusePheromones field cols rows d e) (x + y * cols)
             = toFloat32 (nmul (rd field (x + y * cols)) e)"
    by (intro diffuse_boundary assms) simp_all
  with h show "getPheromoneAt (diffusePheromones field cols rows d e) cols rows x y
          = toFloat32 (nmul (getPheromoneAt field cols rows x y) e)"
    by (simp add: getPheromoneAt_def)
next
  fix x y
  assume h: "1 \<le> x \<and> x \<le> cols - 2 \<and> 1 \<le> y \<and> y \<le> rows - 2"
  then have r: "rd (diffusePheromones field cols rows d e) (x + y * cols)
             = toFloat32 (diffuseCell field cols d e (x + y * cols))"
    by (intro diffuse_interior assms) simp_all
  have i1: "x - 1 + y * cols = x + y * cols - 1" by simp
  have i2: "x + 1 + y * cols = x + y * cols + 1" by simp
  have i3: "x + (y - 1) * cols = x + y * cols - cols" by (simp add: algebra_simps)
  have i4: "x + (y + 1) * cols = x + y * cols + cols" by (simp add: algebra_simps)
  have i5: "x - 1 + (y - 1) * cols = x + y * cols - 1 - cols" by (simp add: algebra_simps)
  have i6: "x + 1 + (y - 1) * cols = x + y * cols + 1 - cols" by (simp add: algebra_simps)
  have i7: "x - 1 + (y + 1) * cols = x + y * cols - 1 + cols" by (simp add: algebra_simps)
  have i8: "x + 1 + (y + 1) * cols = x + y * cols + 1 + cols" by (simp add: algebra_simps)
  have g: "\<And>dx dy. dx \<in> {-1, 0, 1} \<Longrightarrow> dy \<in> {-1, 0, 1} \<Longrightarrow>
      getPheromoneAt field cols rows (x + dx) (y + dy) = rd field (x + dx + (y + dy) * cols)"
    using h by (auto simp: getPheromoneAt_def)
  have g': "getPheromoneAt (diffusePheromones field cols rows d e) cols rows x y
      = rd (diffusePheromones field cols rows d e) (x + y * cols)"
    using h by (auto simp: getPheromoneAt_def)
  show "getPheromoneAt (diffusePheromones field cols rows d e) cols rows x y
          = toFloat32
             (nmul (nadd (nmul (getPheromoneAt field cols rows x y) (nsub (Num 1) d))
                         (nmul (ndiv
                            (nadd (nadd (nadd (nadd (nadd (nadd (nadd
                              (getPheromoneAt field cols rows (x - 1) y)
                              (getPheromoneAt field cols rows (x + 1) y))
                              (getPheromoneAt field cols rows x (y - 1)))
                              (getPheromoneAt field cols rows x (y + 1)))
                              (getPheromoneAt field cols rows (x - 1) (y - 1)))
                              (getPheromoneAt field cols rows (x + 1) (y - 1)))
                              (getPheromoneAt field cols rows (x - 1) (y + 1)))
                              (getPheromoneAt field cols rows (x + 1) (y + 1)))
                            (Num 8))
                            d))
                   e)"
    unfolding g' r diffuseCell_def neighborSum_def Let_def
    using g[of 0 0] g[of "-1" 0] g[of 1 0] g[of 0 "-1"] g[of 0 1]
      g[of "-1" "-1"] g[of 1 "-1"] g[of "-1" 1] g[of 1 1]
    by (simp add: i1 i2 i3 i4 i5 i6 i7 i8)
qed

theorem diffuse_stencil_witness:
  "(1::int) \<le> 3
   \<and> length (cells (Float32Array [Num 1, Num 2, Num 3, Num 4, Num 8, Num 5, Num 6, Num 7, Num 9])) = nat (3 * 3)
   \<and> length (cells (diffusePheromones (Float32Array [Num 1, Num 2, Num 3, Num 4, Num 8, Num 5, Num 6, Num 7, Num 9]) 3 3 (Num (1/2)) (Num (1/2)))) = 9
   \<and> getPheromoneAt (diffusePheromones (Float32Array [Num 1, Num 2, Num 3, Num 4, Num 8, Num 5, Num 6, Num 7, Num 9]) 3 3 (Num (1/2)) (Num (1/2))) 3 3 2 0
       = Num (3/2)
   \<and> getPheromoneAt (diffusePheromones (Float32Array [Num 1, Num 2, Num 3, Num 4, Num 8, Num 5, Num 6, Num 7, Num 9]) 3 3 (Num (1/2)) (Num (1/2))) 3 3 1 1
       = Num (101/32)"
proof -
  let ?f = "Float32Array [Num 1, Num 2, Num 3, Num 4, Num 8, Num 5, Num 6, Num 7, Num 9]"
  have one: "(1::int) \<le> 3" by simp
  have len: "length (cells ?f) = nat (3 * 3)" by simp
  note t = diffuse_stencil [OF one one len, of "Num (1/2)" "Num (1/2)"]
  have v: "getPheromoneAt ?f 3 3 0 0 = Num 1" "getPheromoneAt ?f 3 3 1 0 = Num 2"
    "getPheromoneAt ?f 3 3 2 0 = Num 3" "getPheromoneAt ?f 3 3 0 1 = Num 4"
    "getPheromoneAt ?f 3 3 1 1 = Num 8" "getPheromoneAt ?f 3 3 2 1 = Num 5"
    "getPheromoneAt ?f 3 3 0 2 = Num 6" "getPheromoneAt ?f 3 3 1 2 = Num 7"
    "getPheromoneAt ?f 3 3 2 2 = Num 9"
    by (simp_all add: getPheromoneAt_def rd_def)
  have r64: "round64 (1/2) = 1/2" "round64 (3/2) = 3/2" "round64 (37/8) = 37/8"
    "round64 (37/16) = 37/16" "round64 (101/16) = 101/16" "round64 (101/32) = 101/32"
    by (rule round64_fixedI[where m = 1 and q = "- 1"], simp, simp, simp,
        rule round64_fixedI[where m = 3 and q = "- 1"], simp, simp, simp,
        rule round64_fixedI[where m = 37 and q = "- 3"], simp, simp, simp,
        rule round64_fixedI[where m = 37 and q = "- 4"], simp, simp, simp,
        rule round64_fixedI[where m = 101 and q = "- 4"], simp, simp, simp,
        rule round64_fixedI[where m = 101 and q = "- 5"], simp, simp, simp)
  have r32: "round32 (3/2) = 3/2" "round32 (101/32) = 101/32"
    by (rule round32_fixedI[where m = 3 and q = "- 1"], simp, simp, simp,
        rule round32_fixedI[where m = 101 and q = "- 5"], simp, simp, simp)
  have l: "length (cells (diffusePheromones ?f 3 3 (Num (1/2)) (Num (1/2)))) = 9"
    using t [THEN conjunct1] by simp
  have b: "getPheromoneAt (diffusePheromones ?f 3 3 (Num (1/2)) (Num (1/2))) 3 3 2 0 = Num (3/2)"
    using t [THEN conjunct2, THEN conjunct1, rule_format, of 2 0]
    by (simp add: v number_ops r64 r32)
  have c: "getPheromoneAt (diffusePheromones ?f 3 3 (Num (1/2)) (Num (1/2))) 3 3 1 1 = Num (101/32)"
    using t [THEN conjunct2, THEN conjunct2, rule_format, of 1 1]
    by (simp add: v number_ops r64 r32)
  from one len l b c show ?thesis by blast
qed

text \<open>
  With the binary64 value nearest to 0.1 for the evaporation rate, the one cell of a
  1 by 1 \<^verbatim>\<open>Float32Array\<close> holding 1 becomes the binary32 value nearest to it, which is
  not the product of the old value and the rate.
\<close>

theorem diffuse_stencil_counterexample:
  "getPheromoneAt
     (diffusePheromones (Float32Array [Num 1]) 1 1 (Num 0)
        (Num (3602879701896397 / 36028797018963968))) 1 1 0 0
     = Num (13421773 / 134217728)
   \<and> nmul (getPheromoneAt (Float32Array [Num 1]) 1 1 0 0) (Num (3602879701896397 / 36028797018963968))
     = Num (3602879701896397 / 36028797018963968)
   \<and> (13421773 / 134217728 :: real) \<noteq> 1 * (3602879701896397 / 36028797018963968)"
proof -
  let ?f = "Float32Array [Num 1]"
  let ?e = "Num (3602879701896397 / 36028797018963968)"
  have "rd (diffusePheromones ?f 1 1 (Num 0) ?e) (0 + 0 * 1) = toFloat32 (nmul (rd ?f (0 + 0 * 1)) ?e)"
    by (rule diffuse_boundary) simp_all
  then have "getPheromoneAt (diffusePheromones ?f 1 1 (Num 0) ?e) 1 1 0 0
      = toFloat32 (nmul (Num 1) ?e)"
    by (simp add: getPheromoneAt_def rd_def)
  moreover have m: "nmul (Num 1) ?e = ?e"
    by (simp add: number_ops round64_tenth)
  moreover have "toFloat32 ?e = Num (13421773 / 134217728)"
    by (simp add: number_ops round32_tenth)
  ultimately show ?thesis by (simp add: getPheromoneAt_def rd_def)
qed

section \<open>Deposits\<close>

lemma stored_setCell [simp]: "stored (setCell a i v) w = stored a w"
  by (cases a) simp_all

lemma length_setCell:
  "i < int (length (cells a)) \<Longrightarrow> length (cells (setCell a i v)) = length (cells a)"
  by (cases a) simp_all

lemma cells_setCell:
  "0 \<le> i \<Longrightarrow> i < int (length (cells a)) \<Longrightarrow>
   cells (setCell a i v) = (cells a)[nat i := stored a v]"
  by (cases a) simp_all

lemma rd_setCell_same:
  "0 \<le> i \<Longrightarrow> i < int (length (cells a)) \<Longrightarrow> rd (setCell a i v) i = stored a v"
  by (cases a) (simp_all add: rd_def)

lemma rd_setCell_other:
  "j \<noteq> i \<Longrightarrow> i < int (length (cells a)) \<Longrightarrow> rd (setCell a i v) j = rd a j"
  by (cases a) (auto simp: rd_def nat_eq_iff)

lemma storedSum_cong:
  "(\<And>w. stored a w = stored b w) \<Longrightarrow> storedSum a s xs = storedSum b s xs"
  by (induction xs arbitrary: s) simp_all

lemma deposit_in_bounds:
  assumes "0 \<le> x" "x < cols" "0 \<le> y" "y < rows"
  shows "depositPheromone field cols rows x y amount maxPheromone
         = (True, setCell field (x + y * cols)
                    (nmin (nadd (rd field (x + y * cols)) amount) maxPheromone))"
  using assms by (simp add: depositPheromone_def Let_def)

lemma deposit_read_back:
  assumes "0 \<le> x" "x < cols" "0 \<le> y" "y < rows"
    and "x + y * cols < int (length (cells field))"
  shows "getPheromoneAt (snd (depositPheromone field cols rows x y amount maxPheromone)) cols rows x y
         = stored field (nmin (nadd (getPheromoneAt field cols rows x y) amount) maxPheromone)"
proof -
  have "0 \<le> x + y * cols" using assms(1-4) by (simp add: cell_index_bounds)
  with assms show ?thesis
    by (simp add: deposit_in_bounds getPheromoneAt_def rd_setCell_same)
qed

lemma nle_total: "a \<noteq> NaN \<Longrightarrow> b \<noteq> NaN \<Longrightarrow> nle a b \<or> nle b a"
  by (cases a; cases b) (auto simp: nle_def)

lemma nmin_Num_Num: "nmin (Num a) (Num b) = Num (min a b)"
  by (auto simp: nmin_def)

lemma nmin_Num_gt: "a \<noteq> NaN \<Longrightarrow> \<not> nle a (Num m) \<Longrightarrow> nmin a (Num m) = Num m"
  by (cases a) (auto simp: nmin_def nle_def nlt_def)

lemma nmin_NegZero_Num: "nmin NegZero (Num m) = (if m < 0 then Num m else NegZero)"
  by (simp add: nmin_def nlt_def)

lemma toFloat32_NegZero_above:
  assumes "\<not> nle z (Num m)" "z \<noteq> NaN" "toFloat32 z = NegZero"
  shows "m < 0"
proof (cases z)
  case (Num a)
  with assms(1) have am: "m < a" by simp
  have "a < 0"
  proof (rule ccontr)
    assume "\<not> a < 0"
    then have "pack round32 (2 ^ 128) False a \<noteq> NegZero" by (intro pack_pos_not_NegZero) simp
    with assms(3) Num show False by (simp add: fin32_def)
  qed
  with am show ?thesis by simp
next
  case NegZero
  with assms(1) show ?thesis by (simp add: nle_def)
qed (use assms in simp_all)

lemma toFloat32_nmin:
  assumes "toFloat32 (Num m) = Num m"
  shows "toFloat32 (nmin z (Num m)) = nmin (toFloat32 z) (Num m)"
proof (cases "z = NaN")
  case True
  then show ?thesis by simp
next
  case nn: False
  show ?thesis
  proof (cases "nle z (Num m)")
    case True
    then have "nle (toFloat32 z) (Num m)" using assms by (rule toFloat32_le)
    then have "nmin (toFloat32 z) (Num m) = toFloat32 z" by (rule nmin_Num_left)
    moreover have "nmin z (Num m) = z" using True by (rule nmin_Num_left)
    ultimately show ?thesis by simp
  next
    case False
    have l: "nmin z (Num m) = Num m" using nn False by (rule nmin_Num_gt)
    have "nle (Num m) z" using nle_total[of z "Num m"] nn False by simp
    then have ge: "nle (Num m) (toFloat32 z)" using assms by (rule toFloat32_ge)
    have "nmin (toFloat32 z) (Num m) = Num m"
    proof (cases "toFloat32 z = NegZero")
      case True
      from False nn True have "m < 0" by (rule toFloat32_NegZero_above)
      with True show ?thesis by (simp add: nmin_NegZero_Num)
    next
      case nz: False
      from ge nz show ?thesis by (rule nmin_Num_right)
    qed
    with l assms show ?thesis by simp
  qed
qed

lemma stored_nmin:
  "stored field (Num m) = Num m \<Longrightarrow> stored field (nmin z (Num m)) = nmin (stored field z) (Num m)"
  by (cases field) (simp_all add: toFloat32_nmin)

lemma nadd_Num_Num: "nadd (Num a) (Num b) = fin64 False (a + b)"
  by (simp add: nadd_def)

lemma nadd_ge_fixed:
  assumes "round64 m = m" "0 \<le> m" "m \<le> a + b"
  shows "nle (Num m) (nadd (Num a) (Num b))" and "nadd (Num a) (Num b) \<noteq> NegZero"
proof -
  have "nle (Num m) (pack round64 (2 ^ 1024) False (a + b))"
  proof (rule pack_ge)
    show "m \<le> round64 (a + b)" using assms(1,3) by (rule round64_ge_fixed)
    show "a + b = 0 \<longrightarrow> m \<le> 0" using assms(2,3) by simp
    show "- (2 ^ 1024) < m" using assms(2) by (rule less_le_trans[rotated]) simp
    show "a + b \<le> 0 \<longrightarrow> round64 (a + b) \<le> 0" by (simp add: round64_nonpos)
  qed
  then show "nle (Num m) (nadd (Num a) (Num b))" by (simp add: nadd_Num_Num fin64_def)
  have "0 \<le> a + b" using assms(2,3) by simp
  then have "pack round64 (2 ^ 1024) False (a + b) \<noteq> NegZero" by (rule pack_pos_not_NegZero)
  then show "nadd (Num a) (Num b) \<noteq> NegZero" by (simp add: nadd_Num_Num fin64_def)
qed

lemma clamp_absorbs:
  assumes "0 \<le> av" "0 \<le> mv" "round64 mv = mv"
  shows "nmin (nadd (nmin s (Num mv)) (Num av)) (Num mv) = nmin (nadd s (Num av)) (Num mv)"
proof (cases "s = NaN")
  case True
  then show ?thesis by (simp add: nadd_def)
next
  case nn: False
  show ?thesis
  proof (cases "nle s (Num mv)")
    case True
    then have "nmin s (Num mv) = s" by (rule nmin_Num_left)
    then show ?thesis by simp
  next
    case False
    have l: "nmin s (Num mv) = Num mv" using nn False by (rule nmin_Num_gt)
    have "nmin (nadd (Num mv) (Num av)) (Num mv) = Num mv"
      by (rule nmin_Num_right; rule nadd_ge_fixed[OF assms(3,2)]) (use assms(1) in simp_all)
    moreover have "nmin (nadd s (Num av)) (Num mv) = Num mv"
    proof (cases s)
      case (Num sv)
      with False have "mv < sv" by simp
      with assms(1) have le: "mv \<le> sv + av" by simp
      show ?thesis unfolding Num
        by (rule nmin_Num_right; rule nadd_ge_fixed[OF assms(3,2) le])
    next
      case PosInf
      then show ?thesis by (simp add: nadd_def nmin_def nlt_def)
    next
      case NegZero
      with False assms(2) show ?thesis by (simp add: nle_def)
    next
      case NegInf
      with False show ?thesis by simp
    next
      case NaN
      with nn show ?thesis by simp
    qed
    ultimately show ?thesis by (simp add: l)
  qed
qed

lemma deposit_sequence_from:
  assumes "0 \<le> x" "x < cols" "0 \<le> y" "y < rows"
    and "0 \<le> maxLevel" "round64 maxLevel = maxLevel"
    and "\<forall>a \<in> set amounts. 0 \<le> a"
    and "stored field (Num maxLevel) = Num maxLevel"
    and "x + y * cols < int (length (cells field))"
    and "getPheromoneAt field cols rows x y = nmin s (Num maxLevel)"
  shows "getPheromoneAt (depositSequence field cols rows x y (map Num amounts) (Num maxLevel))
           cols rows x y
         = nmin (storedSum field s (map Num amounts)) (Num maxLevel)"
  using assms(7-10)
proof (induction amounts arbitrary: field s)
  case Nil
  then show ?case by simp
next
  case (Cons a amounts)
  let ?f = "snd (depositPheromone field cols rows x y (Num a) (Num maxLevel))"
  from Cons.prems have a: "0 \<le> a" by simp
  have f: "?f = setCell field (x + y * cols)
       (nmin (nadd (rd field (x + y * cols)) (Num a)) (Num maxLevel))"
    using assms(1-4) by (simp add: deposit_in_bounds)
  have "getPheromoneAt ?f cols rows x y
      = stored field (nmin (nadd (nmin s (Num maxLevel)) (Num a)) (Num maxLevel))"
    using deposit_read_back[OF assms(1-4) Cons.prems(3), of "Num a" "Num maxLevel"]
    by (simp only: Cons.prems(4))
  also have "\<dots> = stored field (nmin (nadd s (Num a)) (Num maxLevel))"
    by (simp only: clamp_absorbs[OF a assms(5,6)])
  also have "\<dots> = nmin (stored field (nadd s (Num a))) (Num maxLevel)"
    using Cons.prems(2) by (rule stored_nmin)
  finally have g: "getPheromoneAt ?f cols rows x y
      = nmin (stored field (nadd s (Num a))) (Num maxLevel)" .
  have "getPheromoneAt (depositSequence ?f cols rows x y (map Num amounts) (Num maxLevel)) cols rows x y
         = nmin (storedSum ?f (stored field (nadd s (Num a))) (map Num amounts)) (Num maxLevel)"
  proof (rule Cons.IH)
    show "\<forall>a\<in>set amounts. 0 \<le> a" using Cons.prems(1) by simp
    show "stored ?f (Num maxLevel) = Num maxLevel" using Cons.prems(2) by (simp add: f)
    show "x + y * cols < int (length (cells ?f))"
      using Cons.prems(3) by (simp add: f length_setCell)
    show "getPheromoneAt ?f cols rows x y = nmin (stored field (nadd s (Num a))) (Num maxLevel)"
      by (rule g)
  qed
  moreover have "storedSum ?f (stored field (nadd s (Num a))) (map Num amounts)
      = storedSum field (stored field (nadd s (Num a))) (map Num amounts)"
    by (rule storedSum_cong) (simp add: f)
  ultimately show ?case by simp
qed

text \<open>A sum that no step rounds.\<close>

lemma fin64_exact:
  "round64 z = z \<Longrightarrow> \<bar>z\<bar> < 2 ^ 1024 \<Longrightarrow> fin64 False z = Num z"
  by (simp add: fin64_def pack_def Let_def)

lemma storedSum_exact:
  assumes "\<forall>k \<le> length amounts.
      round64 (s + sum_list (take k amounts)) = s + sum_list (take k amounts)
      \<and> \<bar>s + sum_list (take k amounts)\<bar> < 2 ^ 1024
      \<and> stored field (Num (s + sum_list (take k amounts))) = Num (s + sum_list (take k amounts))"
  shows "storedSum field (Num s) (map Num amounts) = Num (s + sum_list amounts)"
  using assms
proof (induction amounts arbitrary: s)
  case Nil
  then show ?case by simp
next
  case (Cons a amounts)
  from Cons.prems[rule_format, of 1]
  have 1: "round64 (s + a) = s + a" "\<bar>s + a\<bar> < 2 ^ 1024"
    "stored field (Num (s + a)) = Num (s + a)" by simp_all
  have step: "stored field (nadd (Num s) (Num a)) = Num (s + a)"
    by (simp add: nadd_Num_Num fin64_exact[OF 1(1,2)] 1(3))
  have "storedSum field (Num (s + a)) (map Num amounts) = Num (s + a + sum_list amounts)"
  proof (rule Cons.IH, intro allI impI)
    fix k assume "k \<le> length amounts"
    then have "Suc k \<le> length (a # amounts)" by simp
    from Cons.prems[rule_format, OF this]
    show "round64 (s + a + sum_list (take k amounts)) = s + a + sum_list (take k amounts)
      \<and> \<bar>s + a + sum_list (take k amounts)\<bar> < 2 ^ 1024
      \<and> stored field (Num (s + a + sum_list (take k amounts)))
          = Num (s + a + sum_list (take k amounts))"
      by (simp add: add.assoc)
  qed
  then show ?case by (simp add: step add.assoc)
qed

lemma storedSum_not_NaN:
  assumes "\<forall>a \<in> set amounts. 0 \<le> a" "nle (Num 0) s"
  shows "nle (Num 0) (storedSum field s (map Num amounts))"
  using assms
proof (induction amounts arbitrary: s)
  case Nil
  then show ?case by simp
next
  case (Cons a amounts)
  from Cons.prems have a: "0 \<le> a" by simp
  have "nle (Num 0) (nadd s (Num a))"
  proof (cases s)
    case (Num sv)
    with Cons.prems(2) a have "0 \<le> sv + a" by simp
    then have "nle (Num 0) (pack round64 (2 ^ 1024) False (sv + a))"
      by (rule pack_nonneg) (rule round64_nonneg)
    with Num show ?thesis by (simp add: nadd_Num_Num fin64_def)
  next
    case NegZero
    have "nle (Num 0) (pack round64 (2 ^ 1024) False a)"
      using a by (rule pack_nonneg) (rule round64_nonneg)
    with NegZero show ?thesis by (simp add: nadd_def fin64_def)
  next
    case PosInf
    then show ?thesis by (simp add: nadd_def)
  next
    case NegInf
    with Cons.prems(2) show ?thesis by (simp add: nle_def)
  next
    case NaN
    with Cons.prems(2) show ?thesis by simp
  qed
  then have "nle (Num 0) (stored field (nadd s (Num a)))"
    by (rule stored_ge) simp
  with Cons.prems(1) show ?case by (simp add: Cons.IH)
qed

lemma rd_Num_in_range: "rd a i = Num v \<Longrightarrow> 0 \<le> i \<and> i < int (length (cells a))"
  by (simp add: rd_def split: if_splits)

lemma round64_minus: "round64 (- x) = - round64 x"
  by (simp add: round64_def roundTo_minus)

lemma round32_minus: "round32 (- x) = - round32 x"
  by (simp add: round32_def roundTo_minus)

lemma round32_two24_plus_one: "round32 16777217 = 16777216"
proof (rule round32_evalI[where e = 24 and q = 1 and n = 8388608])
  show "roundNE (16777217 / 2 powi 1) = 8388608"
    by (simp add: roundNE_tie[where n = 8388608])
qed simp_all

text \<open>
  C4. Start from a field whose cell \<open>(x, y)\<close>, inside the grid, holds 0, and deposit at
  \<open>(x, y)\<close> a finite sequence of finite amounts \<open>\<ge> 0\<close> with one finite maximum \<open>\<ge> 0\<close>
  that is a binary64 value and that the array holds unchanged (on a
  \<^verbatim>\<open>Float32Array\<close>: that is a binary32 value). Then \<^verbatim>\<open>getPheromoneAt\<close> reads the
  smaller of the maximum and the sum of the amounts as the cell accumulates it, every
  partial sum rounded to binary64 and converted as the array stores it; where no
  partial sum is rounded, that is the smaller of the maximum and the sum of the
  amounts. The cell never exceeds the maximum, and a cell that holds the maximum still
  holds it after one more deposit.
\<close>

theorem deposit_saturation:
  assumes "0 \<le> x" "x < cols" "0 \<le> y" "y < rows"
    and "getPheromoneAt field cols rows x y = Num 0"
    and "\<forall>a \<in> set amounts. 0 \<le> a"
    and "0 \<le> maxLevel" "round64 maxLevel = maxLevel"
    and "stored field (Num maxLevel) = Num maxLevel"
  shows "getPheromoneAt (depositSequence field cols rows x y (map Num amounts) (Num maxLevel))
             cols rows x y
           = nmin (storedSum field (Num 0) (map Num amounts)) (Num maxLevel)
     \<and> ((\<forall>k \<le> length amounts.
            round64 (sum_list (take k amounts)) = sum_list (take k amounts)
            \<and> \<bar>sum_list (take k amounts)\<bar> < 2 ^ 1024
            \<and> stored field (Num (sum_list (take k amounts))) = Num (sum_list (take k amounts)))
         \<longrightarrow> getPheromoneAt (depositSequence field cols rows x y (map Num amounts) (Num maxLevel))
               cols rows x y
             = Num (min (sum_list amounts) maxLevel))
     \<and> nle (getPheromoneAt (depositSequence field cols rows x y (map Num amounts) (Num maxLevel))
             cols rows x y)
           (Num maxLevel)
     \<and> (\<forall>a field'. 0 \<le> a \<and> getPheromoneAt field' cols rows x y = Num maxLevel
            \<and> stored field' (Num maxLevel) = Num maxLevel \<longrightarrow>
           getPheromoneAt (snd (depositPheromone field' cols rows x y (Num a) (Num maxLevel)))
             cols rows x y
           = Num maxLevel)"
proof -
  let ?r = "getPheromoneAt (depositSequence field cols rows x y (map Num amounts) (Num maxLevel))
             cols rows x y"
  from assms(1-5) have "rd field (x + y * cols) = Num 0" by (simp add: getPheromoneAt_def)
  then have rng: "x + y * cols < int (length (cells field))" by (simp add: rd_Num_in_range)
  from assms(5,7) have "getPheromoneAt field cols rows x y = nmin (Num 0) (Num maxLevel)"
    by (simp add: nmin_Num_left)
  from deposit_sequence_from[OF assms(1-4) assms(7,8) assms(6) assms(9) rng this]
  have 1: "?r = nmin (storedSum field (Num 0) (map Num amounts)) (Num maxLevel)" .
  have 2: "(\<forall>k \<le> length amounts.
            round64 (sum_list (take k amounts)) = sum_list (take k amounts)
            \<and> \<bar>sum_list (take k amounts)\<bar> < 2 ^ 1024
            \<and> stored field (Num (sum_list (take k amounts))) = Num (sum_list (take k amounts)))
         \<longrightarrow> ?r = Num (min (sum_list amounts) maxLevel)"
  proof
    assume "\<forall>k \<le> length amounts.
            round64 (sum_list (take k amounts)) = sum_list (take k amounts)
            \<and> \<bar>sum_list (take k amounts)\<bar> < 2 ^ 1024
            \<and> stored field (Num (sum_list (take k amounts))) = Num (sum_list (take k amounts))"
    then have "storedSum field (Num 0) (map Num amounts) = Num (0 + sum_list amounts)"
      by (intro storedSum_exact) simp
    then show "?r = Num (min (sum_list amounts) maxLevel)"
      unfolding 1 by (simp add: nmin_Num_Num)
  qed
  have "nle (Num 0) (storedSum field (Num 0) (map Num amounts))"
    using assms(6) by (rule storedSum_not_NaN) simp
  then have "storedSum field (Num 0) (map Num amounts) \<noteq> NaN" by auto
  then have 3: "nle ?r (Num maxLevel)" unfolding 1 by (rule nmin_le_right) simp
  have 4: "\<forall>a field'. 0 \<le> a \<and> getPheromoneAt field' cols rows x y = Num maxLevel
            \<and> stored field' (Num maxLevel) = Num maxLevel \<longrightarrow>
           getPheromoneAt (snd (depositPheromone field' cols rows x y (Num a) (Num maxLevel)))
             cols rows x y
           = Num maxLevel"
  proof (intro allI impI)
    fix a :: real and field'
    assume h: "0 \<le> a \<and> getPheromoneAt field' cols rows x y = Num maxLevel
            \<and> stored field' (Num maxLevel) = Num maxLevel"
    with assms(1-4) have "rd field' (x + y * cols) = Num maxLevel" by (simp add: getPheromoneAt_def)
    then have rng': "x + y * cols < int (length (cells field'))" by (simp add: rd_Num_in_range)
    have le: "maxLevel \<le> maxLevel + a" using h by simp
    have "nmin (nadd (Num maxLevel) (Num a)) (Num maxLevel) = Num maxLevel"
      by (rule nmin_Num_right; rule nadd_ge_fixed[OF assms(8,7) le])
    with h show "getPheromoneAt (snd (depositPheromone field' cols rows x y (Num a) (Num maxLevel)))
             cols rows x y = Num maxLevel"
      by (simp add: deposit_read_back[OF assms(1-4) rng'])
  qed
  from 1 2 3 4 show ?thesis by blast
qed

theorem deposit_saturation_witness:
  "getPheromoneAt (Float32Array [Num 7, Num 0, Num 7, Num 7]) 2 2 1 0 = Num 0
   \<and> getPheromoneAt (depositSequence (Float32Array [Num 7, Num 0, Num 7, Num 7]) 2 2 1 0
        [Num 1, Num 2, Num 4] (Num 5)) 2 2 1 0
       = Num 5
   \<and> getPheromoneAt (depositSequence (NumberArray [Num 7, Num 0, Num 7, Num 7]) 2 2 1 0
        [Num 1, Num 2] (Num 5)) 2 2 1 0
       = Num 3
   \<and> getPheromoneAt (snd (depositPheromone (Float32Array [Num 7, Num 5, Num 7, Num 7]) 2 2 1 0
        (Num 3) (Num 5))) 2 2 1 0
       = Num 5"
proof -
  let ?f = "Float32Array [Num 7, Num 0, Num 7, Num 7]"
  let ?n = "NumberArray [Num 7, Num 0, Num 7, Num 7]"
  let ?g = "Float32Array [Num 7, Num 5, Num 7, Num 7]"
  have g: "getPheromoneAt ?f 2 2 1 0 = Num 0" "getPheromoneAt ?n 2 2 1 0 = Num 0"
    by (simp_all add: getPheromoneAt_def rd_def)
  have g': "getPheromoneAt ?g 2 2 1 0 = Num 5"
    by (simp add: getPheromoneAt_def rd_def)
  have a1: "\<forall>a \<in> set [1, 2, 4 :: real]. 0 \<le> a" by simp
  have a2: "\<forall>a \<in> set [1, 2 :: real]. 0 \<le> a" by simp
  have m: "(0::real) \<le> 5" "round64 5 = 5" by simp_all
  have s: "stored ?f (Num 5) = Num 5" "stored ?n (Num 5) = Num 5" "stored ?g (Num 5) = Num 5"
    by (simp_all add: number_ops)
  have p: "(0::int) \<le> 1" "(1::int) < 2" "(0::int) \<le> 0" "(0::int) < 2" by simp_all
  note t1 = deposit_saturation [of 1 2 0 2 ?f "[1, 2, 4]" 5, OF p g(1) a1 m s(1)]
  note t2 = deposit_saturation [of 1 2 0 2 ?n "[1, 2]" 5, OF p g(2) a2 m s(2)]
  have c1: "getPheromoneAt (depositSequence ?f 2 2 1 0 [Num 1, Num 2, Num 4] (Num 5)) 2 2 1 0 = Num 5"
    using t1 [THEN conjunct1] by (simp add: number_ops)
  have e2: "\<forall>k \<le> length [1, 2 :: real].
            round64 (sum_list (take k [1, 2])) = sum_list (take k [1, 2])
            \<and> \<bar>sum_list (take k [1, 2 :: real])\<bar> < 2 ^ 1024
            \<and> stored ?n (Num (sum_list (take k [1, 2]))) = Num (sum_list (take k [1, 2]))"
  proof (intro allI impI)
    fix k :: nat assume "k \<le> length [1, 2 :: real]"
    then have "k = 0 \<or> k = 1 \<or> k = 2" by auto
    then show "round64 (sum_list (take k [1, 2])) = sum_list (take k [1, 2])
            \<and> \<bar>sum_list (take k [1, 2 :: real])\<bar> < 2 ^ 1024
            \<and> stored ?n (Num (sum_list (take k [1, 2]))) = Num (sum_list (take k [1, 2]))"
      by (elim disjE) simp_all
  qed
  have c2: "getPheromoneAt (depositSequence ?n 2 2 1 0 [Num 1, Num 2] (Num 5)) 2 2 1 0 = Num 3"
    using t2 [THEN conjunct2, THEN conjunct1, THEN mp, OF e2] by simp
  have c3: "getPheromoneAt (snd (depositPheromone ?g 2 2 1 0 (Num 3) (Num 5))) 2 2 1 0 = Num 5"
    using t1 [THEN conjunct2, THEN conjunct2, THEN conjunct2, rule_format, of 3 ?g] g' s(3)
    by simp
  from g(1) c1 c2 c3 show ?thesis by blast
qed

text \<open>
  On a \<^verbatim>\<open>Float32Array\<close> whose one cell holds 0, the deposits \<open>2\<^sup>2\<^sup>4\<close> and 1 with the
  maximum \<open>2\<^sup>3\<^sup>0\<close> leave \<open>2\<^sup>2\<^sup>4\<close> in the cell, not the sum; and one deposit of 1 with
  the binary64 value nearest to 0.1 for the maximum leaves the binary32 value nearest to
  it, which is above the maximum.
\<close>

theorem deposit_saturation_counterexample:
  "getPheromoneAt (Float32Array [Num 0]) 1 1 0 0 = Num 0
   \<and> getPheromoneAt (depositSequence (Float32Array [Num 0]) 1 1 0 0
        [Num 16777216, Num 1] (Num 1073741824)) 1 1 0 0
       = Num 16777216
   \<and> min (16777216 + 1) 1073741824 = (16777217 :: real)
   \<and> getPheromoneAt (depositSequence (Float32Array [Num 0]) 1 1 0 0
        [Num 1] (Num (3602879701896397 / 36028797018963968))) 1 1 0 0
       = Num (13421773 / 134217728)
   \<and> \<not> nle (Num (13421773 / 134217728)) (Num (3602879701896397 / 36028797018963968))"
  by (simp add: getPheromoneAt_def depositPheromone_def rd_def number_ops nlt_def
      round32_two24_plus_one round32_tenth round64_tenth)

text \<open>
  C10. \<^verbatim>\<open>depositPheromone\<close> clamps at the top only. For coordinates inside the grid
  and any amount, of either sign, the call returns true and the cell becomes
  \<open>min (old + amount) maxPheromone\<close>, the sum being the binary64 sum and the result
  converted as the array stores it: to binary32 on a \<^verbatim>\<open>Float32Array\<close>, and kept as
  it is on a \<^verbatim>\<open>number[]\<close>. Every other cell stays what it was. There is no lower
  clamp: some deposit of a negative amount leaves a cell strictly below 0.
\<close>

theorem deposit_clamps_top_only:
  "(0 \<le> x \<and> x < cols \<and> 0 \<le> y \<and> y < rows \<and> length (cells field) = nat (cols * rows) \<longrightarrow>
      fst (depositPheromone field cols rows x y amount maxPheromone) = True
      \<and> cells (snd (depositPheromone field cols rows x y amount maxPheromone))
          = (cells field)[nat (x + y * cols) :=
               stored field (nmin (nadd (cells field ! nat (x + y * cols)) amount) maxPheromone)]
      \<and> getPheromoneAt (snd (depositPheromone field cols rows x y amount maxPheromone))
              cols rows x y
            = stored field (nmin (nadd (getPheromoneAt field cols rows x y) amount) maxPheromone)
      \<and> (\<forall>c. field = NumberArray c \<longrightarrow>
            getPheromoneAt (snd (depositPheromone field cols rows x y amount maxPheromone))
              cols rows x y
            = nmin (nadd (getPheromoneAt field cols rows x y) amount) maxPheromone)
      \<and> (\<forall>c. field = Float32Array c \<longrightarrow>
            getPheromoneAt (snd (depositPheromone field cols rows x y amount maxPheromone))
              cols rows x y
            = toFloat32 (nmin (nadd (getPheromoneAt field cols rows x y) amount) maxPheromone)))
   \<and> (\<exists>f c r i j a m old.
        0 \<le> i \<and> i < c \<and> 0 \<le> j \<and> j < r \<and> length (cells f) = nat (c * r)
        \<and> getPheromoneAt f c r i j = Num old \<and> a < 0 \<and> old + a < 0
        \<and> nlt (getPheromoneAt (snd (depositPheromone f c r i j (Num a) m)) c r i j) (Num 0))"
proof (intro conjI impI allI)
  assume h: "0 \<le> x \<and> x < cols \<and> 0 \<le> y \<and> y < rows \<and> length (cells field) = nat (cols * rows)"
  then have "0 \<le> x + y * cols" "x + y * cols < cols * rows"
    by (simp_all add: cell_index_bounds)
  with h have rng: "0 \<le> x + y * cols" "x + y * cols < int (length (cells field))" by simp_all
  from h show "fst (depositPheromone field cols rows x y amount maxPheromone) = True"
    by (simp add: deposit_in_bounds)
  from h rng show "cells (snd (depositPheromone field cols rows x y amount maxPheromone))
          = (cells field)[nat (x + y * cols) :=
               stored field (nmin (nadd (cells field ! nat (x + y * cols)) amount) maxPheromone)]"
    by (simp add: deposit_in_bounds cells_setCell rd_def)
  from h rng show r: "getPheromoneAt (snd (depositPheromone field cols rows x y amount maxPheromone))
              cols rows x y
            = stored field (nmin (nadd (getPheromoneAt field cols rows x y) amount) maxPheromone)"
    by (intro deposit_read_back) simp_all
  {
    fix c assume "field = NumberArray c"
    with r show "getPheromoneAt (snd (depositPheromone field cols rows x y amount maxPheromone))
              cols rows x y
            = nmin (nadd (getPheromoneAt field cols rows x y) amount) maxPheromone"
      by simp
  }
  {
    fix c assume "field = Float32Array c"
    with r show "getPheromoneAt (snd (depositPheromone field cols rows x y amount maxPheromone))
              cols rows x y
            = toFloat32 (nmin (nadd (getPheromoneAt field cols rows x y) amount) maxPheromone)"
      by simp
  }
next
  have "0 \<le> (0::int) \<and> (0::int) < 1 \<and> 0 \<le> (0::int) \<and> (0::int) < 1
        \<and> length (cells (Float32Array [Num 1])) = nat (1 * 1)
        \<and> getPheromoneAt (Float32Array [Num 1]) 1 1 0 0 = Num 1 \<and> (- 3 :: real) < 0
        \<and> (1::real) + (- 3) < 0
        \<and> nlt (getPheromoneAt (snd (depositPheromone (Float32Array [Num 1]) 1 1 0 0 (Num (- 3)) (Num 10)))
                 1 1 0 0) (Num 0)"
    by (simp add: getPheromoneAt_def depositPheromone_def rd_def number_ops nlt_def
        round64_minus round32_minus)
  then show "\<exists>f c r i j a m old.
        0 \<le> i \<and> i < c \<and> 0 \<le> j \<and> j < r \<and> length (cells f) = nat (c * r)
        \<and> getPheromoneAt f c r i j = Num old \<and> a < 0 \<and> old + a < 0
        \<and> nlt (getPheromoneAt (snd (depositPheromone f c r i j (Num a) m)) c r i j) (Num 0)"
    by blast
qed

theorem deposit_clamps_top_only_witness:
  "length (cells (Float32Array [Num 1, Num 2, Num 3, Num 4])) = nat (2 * 2)
   \<and> fst (depositPheromone (Float32Array [Num 1, Num 2, Num 3, Num 4]) 2 2 0 1 (Num (- 5)) (Num 10))
   \<and> cells (snd (depositPheromone (Float32Array [Num 1, Num 2, Num 3, Num 4]) 2 2 0 1
        (Num (- 5)) (Num 10)))
       = [Num 1, Num 2, Num (- 2), Num 4]
   \<and> getPheromoneAt (snd (depositPheromone (Float32Array [Num 1, Num 2, Num 3, Num 4]) 2 2 0 1
        (Num (- 5)) (Num 10))) 2 2 0 1
       = Num (- 2)
   \<and> getPheromoneAt (snd (depositPheromone (NumberArray [Num 1, Num 2, Num 3, Num 4]) 2 2 0 1
        (Num (3602879701896397 / 36028797018963968)) (Num 10))) 2 2 0 1
       = Num (6980579422424269 / 2251799813685248)"
proof -
  let ?f = "Float32Array [Num 1, Num 2, Num 3, Num 4]"
  let ?n = "NumberArray [Num 1, Num 2, Num 3, Num 4]"
  have g: "getPheromoneAt ?f 2 2 0 1 = Num 3" "getPheromoneAt ?n 2 2 0 1 = Num 3"
    by (simp_all add: getPheromoneAt_def rd_def)
  note t = deposit_clamps_top_only [of 0 2 1 2 ?f "Num (- 5)" "Num 10",
      THEN conjunct1, rule_format]
  note u = deposit_clamps_top_only [of 0 2 1 2 ?n "Num (3602879701896397 / 36028797018963968)" "Num 10",
      THEN conjunct1, rule_format]
  have h: "0 \<le> (0::int) \<and> (0::int) < 2 \<and> 0 \<le> (1::int) \<and> (1::int) < 2
           \<and> length (cells ?f) = nat (2 * 2)" by simp
  have h': "0 \<le> (0::int) \<and> (0::int) < 2 \<and> 0 \<le> (1::int) \<and> (1::int) < 2
           \<and> length (cells ?n) = nat (2 * 2)" by simp
  have 0: "fst (depositPheromone ?f 2 2 0 1 (Num (- 5)) (Num 10))"
    using t [OF h, THEN conjunct1] by simp
  have 1: "cells (snd (depositPheromone ?f 2 2 0 1 (Num (- 5)) (Num 10)))
       = [Num 1, Num 2, Num (- 2), Num 4]"
    using t [OF h, THEN conjunct2, THEN conjunct1]
    by (simp add: number_ops nlt_def round64_minus round32_minus)
  have 2: "getPheromoneAt (snd (depositPheromone ?f 2 2 0 1 (Num (- 5)) (Num 10))) 2 2 0 1 = Num (- 2)"
    using t [OF h, THEN conjunct2, THEN conjunct2, THEN conjunct1]
    by (simp add: g number_ops nlt_def round64_minus round32_minus)
  have r: "round64 (111689270758788301 / 36028797018963968) = 6980579422424269 / 2251799813685248"
  proof (rule round64_evalI[where e = 1 and q = "- 51" and n = 6980579422424269])
    show "roundNE (111689270758788301 / 36028797018963968 / 2 powi (- 51)) = 6980579422424269"
      by (rule roundNE_eqI) simp_all
  qed simp_all
  have 3: "getPheromoneAt (snd (depositPheromone ?n 2 2 0 1
        (Num (3602879701896397 / 36028797018963968)) (Num 10))) 2 2 0 1
       = Num (6980579422424269 / 2251799813685248)"
    using u [OF h', THEN conjunct2, THEN conjunct2, THEN conjunct2, THEN conjunct1, rule_format, of "[Num 1, Num 2, Num 3, Num 4]"]
    by (simp add: g number_ops nlt_def r)
  from h 0 1 2 3 show ?thesis by blast
qed

text \<open>
  A deposit of the binary64 value nearest to 0.1 into a cell of a \<^verbatim>\<open>Float32Array\<close>
  that holds 0, with the maximum 1: \<open>min (0 + amount) 1\<close> is the amount, and the cell
  holds the binary32 value nearest to it, which is another number.
\<close>

theorem deposit_clamps_top_only_counterexample:
  "getPheromoneAt (snd (depositPheromone (Float32Array [Num 0]) 1 1 0 0
        (Num (3602879701896397 / 36028797018963968)) (Num 1))) 1 1 0 0
     = Num (13421773 / 134217728)
   \<and> nmin (nadd (getPheromoneAt (Float32Array [Num 0]) 1 1 0 0)
              (Num (3602879701896397 / 36028797018963968))) (Num 1)
     = Num (3602879701896397 / 36028797018963968)
   \<and> (13421773 / 134217728 :: real) \<noteq> 3602879701896397 / 36028797018963968"
  by (simp add: getPheromoneAt_def depositPheromone_def rd_def number_ops nlt_def
      round32_tenth round64_tenth)

section \<open>evaporatePheromones, cell by cell\<close>

lemma length_evaporateFrom [simp]: "length (evaporateFrom field e i next) = length next"
  by (induction field e i "next" rule: evaporateFrom.induct)
     (subst evaporateFrom.simps, simp)

lemma rd_evaporateFrom:
  "rd (Float32Array (evaporateFrom field e i next)) k =
     (if (\<exists>i'. i \<le> i' \<and> i' < int (length (cells field)) \<and> k = i')
         \<and> 0 \<le> k \<and> k < int (length next)
      then toFloat32 (nmul (rd field k) e) else rd (Float32Array next) k)"
proof (induction field e i "next" rule: evaporateFrom.induct)
  case (1 field e i "next")
  show ?case
  proof (cases "i < int (length (cells field))")
    case False
    then have e1: "evaporateFrom field e i next = next" by (subst evaporateFrom.simps) simp
    have e2: "(\<exists>i'. i \<le> i' \<and> i' < int (length (cells field)) \<and> k = i') = False"
      using False by auto
    show ?thesis unfolding e1 e2 by simp
  next
    case True
    let ?P = "\<lambda>i'. k = i'"
    have eq: "evaporateFrom field e i next
              = evaporateFrom field e (i + 1) (upd next i (nmul (rd field i) e))"
      using True by (subst evaporateFrom.simps) simp
    show ?thesis
      unfolding eq "1.IH"[OF True] ex_from_split[of i "int (length (cells field))" ?P, OF True] length_upd
      by (rule write1_step[where F = "\<lambda>j. nmul (rd field j) e"])
  qed
qed

lemma length_evaporatePheromones [simp]:
  "length (cells (evaporatePheromones field e)) = length (cells field)"
  by (simp add: evaporatePheromones_def newFloat32Array_def)

lemma rd_evaporatePheromones:
  "rd (evaporatePheromones field e) k
   = (if 0 \<le> k \<and> k < int (length (cells field)) then toFloat32 (nmul (rd field k) e) else NaN)"
  by (auto simp: evaporatePheromones_def rd_evaporateFrom newFloat32Array_def)
     (simp_all add: rd_def)

section \<open>Ranges of the results of the operations\<close>

lemma all_cells_iff:
  "(\<forall>v \<in> set (cells a). P v) \<longleftrightarrow> (\<forall>k. 0 \<le> k \<and> k < int (length (cells a)) \<longrightarrow> P (rd a k))"
proof
  assume h: "\<forall>v \<in> set (cells a). P v"
  show "\<forall>k. 0 \<le> k \<and> k < int (length (cells a)) \<longrightarrow> P (rd a k)"
  proof (intro allI impI)
    fix k assume "0 \<le> k \<and> k < int (length (cells a))"
    then have "rd a k \<in> set (cells a)" by (auto simp: rd_def nat_less_iff)
    with h show "P (rd a k)" by blast
  qed
next
  assume h: "\<forall>k. 0 \<le> k \<and> k < int (length (cells a)) \<longrightarrow> P (rd a k)"
  show "\<forall>v \<in> set (cells a). P v"
  proof
    fix v assume "v \<in> set (cells a)"
    then obtain n where n: "n < length (cells a)" "cells a ! n = v" by (auto simp: in_set_conv_nth)
    then have "rd a (int n) = v" by (simp add: rd_def)
    moreover from n h have "P (rd a (int n))" by simp
    ultimately show "P v" by simp
  qed
qed

lemma in_range_iff:
  "nle (Num 0) a \<and> nle a (Num A) \<longleftrightarrow> a \<noteq> NaN \<and> \<not> isInf a \<and> 0 \<le> val a \<and> val a \<le> A"
  by (cases a) (auto simp: nle_def)

lemma finite_nonneg_iff:
  "nle (Num 0) a \<and> \<not> isInf a \<longleftrightarrow> a \<noteq> NaN \<and> \<not> isInf a \<and> 0 \<le> val a"
  by (cases a) (auto simp: nle_def)

lemma fin64_range:
  assumes "0 \<le> z" "z \<le> A" "round64 A = A" "A < 2 ^ 1024"
  shows "nle (Num 0) (fin64 neg z) \<and> nle (fin64 neg z) (Num A)"
proof
  show "nle (Num 0) (fin64 neg z)"
    unfolding fin64_def using assms(1) by (rule pack_nonneg) (rule round64_nonneg)
  show "nle (fin64 neg z) (Num A)"
    unfolding fin64_def
  proof (rule pack_le)
    show "round64 z \<le> A" using assms(3,2) by (rule round64_le_fixed)
    show "z = 0 \<longrightarrow> 0 \<le> A" using assms(1,2) by simp
    show "A < 2 ^ 1024" by (rule assms(4))
    show "0 \<le> z \<longrightarrow> 0 \<le> round64 z" by (simp add: round64_nonneg)
  qed
qed

lemma fin64_nonneg: "0 \<le> z \<Longrightarrow> nle (Num 0) (fin64 neg z)"
  unfolding fin64_def by (rule pack_nonneg, assumption, rule round64_nonneg)

lemma nadd_range:
  assumes "nle (Num 0) a \<and> nle a (Num A)" "nle (Num 0) b \<and> nle b (Num B)"
    and "round64 (A + B) = A + B" "A + B < 2 ^ 1024"
  shows "nle (Num 0) (nadd a b) \<and> nle (nadd a b) (Num (A + B))"
proof -
  from assms(1,2) have a: "a \<noteq> NaN" "\<not> isInf a" "0 \<le> val a" "val a \<le> A"
    and b: "b \<noteq> NaN" "\<not> isInf b" "0 \<le> val b" "val b \<le> B"
    by (simp_all add: in_range_iff)
  have "nadd a b = fin64 (a = NegZero \<and> b = NegZero) (val a + val b)"
    using a b by (simp add: nadd_def)
  moreover have "0 \<le> val a + val b" "val a + val b \<le> A + B" using a b by simp_all
  ultimately show ?thesis using assms(3,4) by (simp only: fin64_range)
qed

lemma nmul_range:
  assumes "nle (Num 0) a \<and> nle a (Num A)" "nle (Num 0) b \<and> nle b (Num 1)"
    and "round64 A = A" "A < 2 ^ 1024"
  shows "nle (Num 0) (nmul a b) \<and> nle (nmul a b) (Num A)"
proof -
  from assms(1,2) have a: "a \<noteq> NaN" "\<not> isInf a" "0 \<le> val a" "val a \<le> A"
    and b: "b \<noteq> NaN" "\<not> isInf b" "0 \<le> val b" "val b \<le> 1"
    by (simp_all add: in_range_iff)
  have "nmul a b = fin64 (isNeg a \<noteq> isNeg b) (val a * val b)"
    using a b by (simp add: nmul_def)
  moreover have "0 \<le> val a * val b" using a b by simp
  moreover have "val a * val b \<le> A * 1" using a b by (intro mult_mono) simp_all
  ultimately show ?thesis using assms(3,4) by (simp only: fin64_range mult_1_right)
qed

lemma nmul_nonneg:
  assumes "nle (Num 0) a \<and> \<not> isInf a" "nle (Num 0) b \<and> \<not> isInf b"
  shows "nle (Num 0) (nmul a b)"
proof -
  from assms have a: "a \<noteq> NaN" "\<not> isInf a" "0 \<le> val a"
    and b: "b \<noteq> NaN" "\<not> isInf b" "0 \<le> val b"
    by (simp_all add: finite_nonneg_iff)
  have "nmul a b = fin64 (isNeg a \<noteq> isNeg b) (val a * val b)"
    using a b by (simp add: nmul_def)
  moreover have "0 \<le> val a * val b" using a b by simp
  ultimately show ?thesis by (simp only: fin64_nonneg)
qed

lemma ndiv8_range:
  assumes "nle (Num 0) a \<and> nle a (Num A)" "round64 A = A" "A < 2 ^ 1024"
  shows "nle (Num 0) (ndiv a (Num 8)) \<and> nle (ndiv a (Num 8)) (Num A)"
proof -
  from assms(1) have a: "a \<noteq> NaN" "\<not> isInf a" "0 \<le> val a" "val a \<le> A"
    by (simp_all add: in_range_iff)
  have "ndiv a (Num 8) = fin64 (isNeg a \<noteq> isNeg (Num 8)) (val a / 8)"
    using a by (simp add: ndiv_def)
  moreover have "0 \<le> val a / 8" "val a / 8 \<le> A" using a by simp_all
  ultimately show ?thesis using assms(2,3) by (simp only: fin64_range)
qed

lemma nsub_one_range:
  assumes "nle (Num 0) d \<and> nle d (Num 1)"
  shows "nle (Num 0) (nsub (Num 1) d) \<and> nle (nsub (Num 1) d) (Num 1)"
proof -
  from assms have d: "d \<noteq> NaN" "\<not> isInf d" "0 \<le> val d" "val d \<le> 1"
    by (simp_all add: in_range_iff)
  have n: "nneg d \<noteq> NaN" "\<not> isInf (nneg d)" "val (nneg d) = - val d"
    using d(1,2) by (cases d; simp)+
  have "nsub (Num 1) d = fin64 False (1 - val d)"
    using n by (simp add: nsub_def nadd_def)
  moreover have "0 \<le> 1 - val d" "1 - val d \<le> 1" using d by simp_all
  moreover have "round64 1 = 1" "(1::real) < 2 ^ 1024" by simp_all
  ultimately show ?thesis by (simp only: fin64_range)
qed

lemma toFloat32_nonneg: "nle (Num 0) v \<Longrightarrow> nle (Num 0) (toFloat32 v)"
  by (rule toFloat32_ge) (simp_all add: fin32_def)

lemma nadd_nonneg:
  assumes "nle (Num 0) a" "nle (Num 0) b"
  shows "nle (Num 0) (nadd a b)"
proof -
  from assms have a: "a = PosInf \<or> (a \<noteq> NaN \<and> \<not> isInf a \<and> 0 \<le> val a)"
    and b: "b = PosInf \<or> (b \<noteq> NaN \<and> \<not> isInf b \<and> 0 \<le> val b)"
    by (simp_all add: nle_zero_iff)
  show ?thesis
  proof (cases "a = PosInf \<or> b = PosInf")
    case True
    with a b show ?thesis by (auto simp: nadd_def)
  next
    case False
    with a b have "nadd a b = fin64 (a = NegZero \<and> b = NegZero) (val a + val b)"
      and "0 \<le> val a + val b" by (simp_all add: nadd_def)
    then show ?thesis by (simp only: fin64_nonneg)
  qed
qed

section \<open>Ranges of the cells\<close>

lemma pow1020:
  fixes k :: int
  assumes "0 \<le> k" "k \<le> 9"
  shows "round64 (of_int k * 2 ^ 1020) = of_int k * 2 ^ 1020"
    and "of_int k * 2 ^ 1020 < (2::real) ^ 1024"
proof -
  have "\<bar>k\<bar> \<le> 2 ^ 53" using assms by simp
  from round64_dyadic[OF this, of 1020]
  show "round64 (of_int k * 2 ^ 1020) = of_int k * 2 ^ 1020" by simp
  have "(of_int k :: real) \<le> 9" using assms by simp
  then have "of_int k * 2 ^ 1020 \<le> (9::real) * 2 ^ 1020" by (intro mult_right_mono) simp_all
  also have "\<dots> < 16 * 2 ^ 1020" by (intro mult_strict_right_mono) simp_all
  also have "\<dots> = (2::real) ^ 1024" by simp
  finally show "of_int k * 2 ^ 1020 < (2::real) ^ 1024" .
qed

lemma interior_neighbours_in_range:
  fixes x y cols rows a b :: int
  assumes "1 \<le> x" "x < cols - 1" "1 \<le> y" "y < rows - 1"
    and "a \<in> {- 1, 0, 1}" "b \<in> {- 1, 0, 1}"
  shows "0 \<le> x + y * cols + a + b * cols" and "x + y * cols + a + b * cols < cols * rows"
proof -
  have e: "x + y * cols + a + b * cols = (x + a) + (y + b) * cols" by (simp add: algebra_simps)
  have r: "0 \<le> x + a" "x + a < cols" "0 \<le> y + b" "y + b < rows" using assms by auto
  show "0 \<le> x + y * cols + a + b * cols" "x + y * cols + a + b * cols < cols * rows"
    unfolding e using cell_index_bounds[OF r] by simp_all
qed

lemma diffuseCell_range:
  fixes B :: real
  defines "B \<equiv> 2 ^ 1020"
  assumes cells: "\<And>j. j \<in> {k, k - 1, k + 1, k - cols, k + cols, k - 1 - cols, k + 1 - cols,
                       k - 1 + cols, k + 1 + cols} \<Longrightarrow> nle (Num 0) (rd field j) \<and> nle (rd field j) (Num B)"
    and d: "nle (Num 0) d \<and> nle d (Num 1)" and e: "nle (Num 0) e \<and> nle e (Num 1)"
  shows "nle (Num 0) (diffuseCell field cols d e k)"
proof -
  have fx: "\<And>i::int. 0 \<le> i \<Longrightarrow> i \<le> 9 \<Longrightarrow> round64 (of_int i * B) = of_int i * B"
    and lt: "\<And>i::int. 0 \<le> i \<Longrightarrow> i \<le> 9 \<Longrightarrow> of_int i * B < 2 ^ 1024"
    unfolding B_def by (rule pow1020; assumption)+
  have fx1: "round64 B = B" and lt1: "B < 2 ^ 1024" using fx[of 1] lt[of 1] by simp_all
  have add: "\<And>a b i. nle (Num 0) a \<and> nle a (Num (of_int i * B)) \<Longrightarrow> nle (Num 0) b \<and> nle b (Num B)
      \<Longrightarrow> 0 \<le> i \<Longrightarrow> i \<le> 8
      \<Longrightarrow> nle (Num 0) (nadd a b) \<and> nle (nadd a b) (Num (of_int (i + 1) * B))"
  proof -
    fix a b and i :: int
    assume h: "nle (Num 0) a \<and> nle a (Num (of_int i * B))" "nle (Num 0) b \<and> nle b (Num B)"
      "0 \<le> i" "i \<le> 8"
    have s: "of_int i * B + B = of_int (i + 1) * B" by (simp add: algebra_simps)
    have "nle (Num 0) (nadd a b) \<and> nle (nadd a b) (Num (of_int i * B + B))"
      using h(1,2)
    proof (rule nadd_range)
      show "round64 (of_int i * B + B) = of_int i * B + B" unfolding s using h(3,4) by (intro fx) simp_all
      show "of_int i * B + B < 2 ^ 1024" unfolding s using h(3,4) by (intro lt) simp_all
    qed
    then show "nle (Num 0) (nadd a b) \<and> nle (nadd a b) (Num (of_int (i + 1) * B))"
      by (simp only: s)
  qed
  have c1: "nle (Num 0) (rd field (k - 1)) \<and> nle (rd field (k - 1)) (Num (of_int 1 * B))"
    using cells[of "k - 1"] by simp
  note s2 = add[OF c1 cells[of "k + 1"]]
  have s2': "nle (Num 0) (nadd (rd field (k - 1)) (rd field (k + 1)))
      \<and> nle (nadd (rd field (k - 1)) (rd field (k + 1))) (Num (of_int 2 * B))"
    using s2 by simp
  note s3 = add[OF s2' cells[of "k - cols"]]
  have s3': "nle (Num 0) (nadd (nadd (rd field (k - 1)) (rd field (k + 1))) (rd field (k - cols)))
      \<and> nle (nadd (nadd (rd field (k - 1)) (rd field (k + 1))) (rd field (k - cols)))
          (Num (of_int 3 * B))"
    using s3 by simp
  note s4 = add[OF s3' cells[of "k + cols"]]
  have s4': "nle (Num 0) (nadd (nadd (nadd (rd field (k - 1)) (rd field (k + 1))) (rd field (k - cols)))
         (rd field (k + cols)))
      \<and> nle (nadd (nadd (nadd (rd field (k - 1)) (rd field (k + 1))) (rd field (k - cols)))
         (rd field (k + cols))) (Num (of_int 4 * B))"
    using s4 by simp
  note s5 = add[OF s4' cells[of "k - 1 - cols"]]
  have s5': "nle (Num 0) (nadd (nadd (nadd (nadd (rd field (k - 1)) (rd field (k + 1)))
         (rd field (k - cols))) (rd field (k + cols))) (rd field (k - 1 - cols)))
      \<and> nle (nadd (nadd (nadd (nadd (rd field (k - 1)) (rd field (k + 1)))
         (rd field (k - cols))) (rd field (k + cols))) (rd field (k - 1 - cols))) (Num (of_int 5 * B))"
    using s5 by simp
  note s6 = add[OF s5' cells[of "k + 1 - cols"]]
  have s6': "nle (Num 0) (nadd (nadd (nadd (nadd (nadd (rd field (k - 1)) (rd field (k + 1)))
         (rd field (k - cols))) (rd field (k + cols))) (rd field (k - 1 - cols)))
         (rd field (k + 1 - cols)))
      \<and> nle (nadd (nadd (nadd (nadd (nadd (rd field (k - 1)) (rd field (k + 1)))
         (rd field (k - cols))) (rd field (k + cols))) (rd field (k - 1 - cols)))
         (rd field (k + 1 - cols))) (Num (of_int 6 * B))"
    using s6 by simp
  note s7 = add[OF s6' cells[of "k - 1 + cols"]]
  have s7': "nle (Num 0) (nadd (nadd (nadd (nadd (nadd (nadd (rd field (k - 1)) (rd field (k + 1)))
         (rd field (k - cols))) (rd field (k + cols))) (rd field (k - 1 - cols)))
         (rd field (k + 1 - cols))) (rd field (k - 1 + cols)))
      \<and> nle (nadd (nadd (nadd (nadd (nadd (nadd (rd field (k - 1)) (rd field (k + 1)))
         (rd field (k - cols))) (rd field (k + cols))) (rd field (k - 1 - cols)))
         (rd field (k + 1 - cols))) (rd field (k - 1 + cols))) (Num (of_int 7 * B))"
    using s7 by simp
  note s8 = add[OF s7' cells[of "k + 1 + cols"]]
  have sum: "nle (Num 0) (neighborSum field cols k)
      \<and> nle (neighborSum field cols k) (Num (of_int 8 * B))"
    unfolding neighborSum_def using s8 by simp
  have f8: "round64 (of_int 8 * B) = of_int 8 * B" and l8: "of_int 8 * B < 2 ^ 1024"
    and f9: "round64 (of_int 9 * B) = of_int 9 * B" and l9: "of_int 9 * B < 2 ^ 1024"
    by (rule fx lt; simp)+
  have q: "nle (Num 0) (ndiv (neighborSum field cols k) (Num 8))
      \<and> nle (ndiv (neighborSum field cols k) (Num 8)) (Num (of_int 8 * B))"
    using sum f8 l8 by (rule ndiv8_range)
  have qd: "nle (Num 0) (nmul (ndiv (neighborSum field cols k) (Num 8)) d)
      \<and> nle (nmul (ndiv (neighborSum field cols k) (Num 8)) d) (Num (of_int 8 * B))"
    using q d f8 l8 by (rule nmul_range)
  have od: "nle (Num 0) (nsub (Num 1) d) \<and> nle (nsub (Num 1) d) (Num 1)"
    using d by (rule nsub_one_range)
  have c: "nle (Num 0) (nmul (rd field k) (nsub (Num 1) d))
      \<and> nle (nmul (rd field k) (nsub (Num 1) d)) (Num B)"
    using cells[of k] od by (intro nmul_range[OF _ _ fx1 lt1]) simp_all
  have s: "B + of_int 8 * B = of_int 9 * B" by simp
  have "nle (Num 0) (nadd (nmul (rd field k) (nsub (Num 1) d))
           (nmul (ndiv (neighborSum field cols k) (Num 8)) d))
      \<and> nle (nadd (nmul (rd field k) (nsub (Num 1) d))
           (nmul (ndiv (neighborSum field cols k) (Num 8)) d)) (Num (B + of_int 8 * B))"
    using c qd
  proof (rule nadd_range)
    show "round64 (B + of_int 8 * B) = B + of_int 8 * B" unfolding s by (rule f9)
    show "B + of_int 8 * B < 2 ^ 1024" unfolding s by (rule l9)
  qed
  then have dif: "nle (Num 0) (nadd (nmul (rd field k) (nsub (Num 1) d))
           (nmul (ndiv (neighborSum field cols k) (Num 8)) d))
      \<and> nle (nadd (nmul (rd field k) (nsub (Num 1) d))
           (nmul (ndiv (neighborSum field cols k) (Num 8)) d)) (Num (of_int 9 * B))"
    by (simp only: s)
  have "nle (Num 0) (nmul (nadd (nmul (rd field k) (nsub (Num 1) d))
           (nmul (ndiv (neighborSum field cols k) (Num 8)) d)) e)
      \<and> nle (nmul (nadd (nmul (rd field k) (nsub (Num 1) d))
           (nmul (ndiv (neighborSum field cols k) (Num 8)) d)) e) (Num (of_int 9 * B))"
    using dif e f9 l9 by (rule nmul_range)
  then show ?thesis by (simp add: diffuseCell_def Let_def)
qed

lemma if_chain_cases:
  assumes "R" "A \<Longrightarrow> P p" "P q" "P q'" "P z"
  shows "P (if R then (if A then p else if B then q else if C then q' else z) else n)"
  using assms by simp

lemma diffuse_nonneg:
  assumes len: "length (cells field) = nat (cols * rows)"
    and nn: "\<forall>v \<in> set (cells field). nle (Num 0) v \<and> nle v (Num (2 ^ 1020))"
    and d: "nle (Num 0) d \<and> nle d (Num 1)" and e: "nle (Num 0) e \<and> nle e (Num 1)"
  shows "\<forall>v \<in> set (cells (diffusePheromones field cols rows d e)). nle (Num 0) v"
  unfolding all_cells_iff[of "diffusePheromones field cols rows d e"]
proof (intro allI impI)
  fix k
  assume "0 \<le> k \<and> k < int (length (cells (diffusePheromones field cols rows d e)))"
  then have rng: "0 \<le> k" "k < int (length (cells field))" by simp_all
  note cell = nn[unfolded all_cells_iff[of field], rule_format]
  let ?int = "\<exists>x'. 1 \<le> x' \<and> x' < cols - 1 \<and> (\<exists>y'. 1 \<le> y' \<and> y' < rows - 1 \<and> k = x' + y' * cols)"
  have f1: "round64 (2 ^ 1020) = 2 ^ 1020" "(2::real) ^ 1020 < 2 ^ 1024"
    using pow1020[of 1] by simp_all
  have "nle (Num 0) (nmul (rd field k) e) \<and> nle (nmul (rd field k) e) (Num (2 ^ 1020))"
    using cell e f1 by (rule nmul_range) (use rng in simp)
  then have edge: "nle (Num 0) (toFloat32 (nmul (rd field k) e))"
    by (intro toFloat32_nonneg) simp
  show "nle (Num 0) (rd (diffusePheromones field cols rows d e) k)"
    unfolding rd_diffusePheromones
  proof (rule if_chain_cases[where P = "nle (Num 0)"])
    show "0 \<le> k \<and> k < int (length (cells field))" using rng by simp
  next
    assume ?int
    then obtain x' y' where h: "1 \<le> x'" "x' < cols - 1" "1 \<le> y'" "y' < rows - 1"
      "k = x' + y' * cols" by blast
    have "nle (Num 0) (diffuseCell field cols d e k)"
    proof (rule diffuseCell_range[OF _ d e])
      fix j
      assume "j \<in> {k, k - 1, k + 1, k - cols, k + cols, k - 1 - cols, k + 1 - cols,
               k - 1 + cols, k + 1 + cols}"
      then have "\<exists>a \<in> {- 1, 0, 1}. \<exists>b \<in> {- 1, 0, 1}. j = x' + y' * cols + a + b * cols"
        unfolding h(5) by (elim insertE) (simp_all add: algebra_simps)
      then obtain a b where ab: "a \<in> {- 1, 0, 1}" "b \<in> {- 1, 0, 1}" "j = x' + y' * cols + a + b * cols"
        by blast
      have "0 \<le> j" "j < cols * rows"
        unfolding ab(3) by (rule interior_neighbours_in_range[OF h(1-4) ab(1,2)])+
      with len have "0 \<le> j \<and> j < int (length (cells field))" by simp
      then show "nle (Num 0) (rd field j) \<and> nle (rd field j) (Num (2 ^ 1020))" by (rule cell)
    qed
    then show "nle (Num 0) (toFloat32 (diffuseCell field cols d e k))" by (rule toFloat32_nonneg)
  qed (simp_all add: edge)
qed

lemma evaporate_nonneg:
  assumes nn: "\<forall>v \<in> set (cells field). nle (Num 0) v \<and> \<not> isInf v"
    and e: "nle (Num 0) e \<and> nle e (Num 1)"
  shows "\<forall>v \<in> set (cells (evaporatePheromones field e)). nle (Num 0) v"
  unfolding all_cells_iff[of "evaporatePheromones field e"]
proof (intro allI impI)
  fix k
  assume "0 \<le> k \<and> k < int (length (cells (evaporatePheromones field e)))"
  then have rng: "0 \<le> k \<and> k < int (length (cells field))" by simp
  note cell = nn[unfolded all_cells_iff[of field], rule_format, OF rng]
  from e have e': "nle (Num 0) e \<and> \<not> isInf e" by (cases e) (simp_all add: nle_def)
  have "nle (Num 0) (nmul (rd field k) e)" using cell e' by (rule nmul_nonneg)
  then have "nle (Num 0) (toFloat32 (nmul (rd field k) e))" by (rule toFloat32_nonneg)
  with rng show "nle (Num 0) (rd (evaporatePheromones field e) k)"
    by (simp add: rd_evaporatePheromones)
qed

lemma deposit_range:
  assumes len: "length (cells field) = nat (cols * rows)"
    and inv: "\<forall>v \<in> set (cells field). nle (Num 0) v \<and> nle v maxLevel"
    and a: "nle (Num 0) amount"
    and m: "stored field maxLevel = maxLevel"
  shows "\<forall>v \<in> set (cells (snd (depositPheromone field cols rows x y amount maxLevel))).
           nle (Num 0) v \<and> nle v maxLevel"
proof (cases "x < 0 \<or> cols \<le> x \<or> y < 0 \<or> rows \<le> y")
  case True
  then show ?thesis using inv by (auto simp: depositPheromone_def)
next
  case False
  let ?i = "x + y * cols"
  let ?v = "nmin (nadd (rd field ?i) amount) maxLevel"
  from False have xy: "0 \<le> x" "x < cols" "0 \<le> y" "y < rows" by simp_all
  have rng: "0 \<le> ?i" "?i < int (length (cells field))"
    using cell_index_bounds[OF xy] len by simp_all
  from xy have dep: "snd (depositPheromone field cols rows x y amount maxLevel) = setCell field ?i ?v"
    by (simp add: deposit_in_bounds)
  have old: "nle (Num 0) (rd field ?i) \<and> nle (rd field ?i) maxLevel"
    using inv rng by (simp add: all_cells_iff[of field])
  then have m0: "nle (Num 0) maxLevel" by (blast intro: nle_trans)
  have u0: "nle (Num 0) (nadd (rd field ?i) amount)" using old a by (intro nadd_nonneg) simp_all
  then have un: "nadd (rd field ?i) amount \<noteq> NaN" by auto
  from old have mn: "maxLevel \<noteq> NaN" by auto
  have w0: "nle (Num 0) ?v" using u0 m0 by (rule nmin_lower)
  have wm: "nle ?v maxLevel" using un mn by (rule nmin_le_right)
  have new: "nle (Num 0) (stored field ?v) \<and> nle (stored field ?v) maxLevel"
    using w0 wm m by (simp add: stored_ge stored_le)
  have c: "cells (setCell field ?i ?v) = (cells field)[nat ?i := stored field ?v]"
    using rng by (rule cells_setCell)
  show ?thesis
    unfolding dep c
  proof
    fix v assume "v \<in> set ((cells field)[nat ?i := stored field ?v])"
    then have "v = stored field ?v \<or> v \<in> set (cells field)"
      using set_update_subset_insert[of "cells field" "nat ?i" "stored field ?v"] by auto
    with new inv show "nle (Num 0) v \<and> nle v maxLevel" by auto
  qed
qed

lemma diffuseCell_overflow:
  assumes "nadd (Num b) (Num b) = PosInf"
  shows "diffuseCell (NumberArray [Num b, Num b, Num b, Num b, Num b, Num b, Num b, Num b, Num b])
           3 (Num 0) e 4 = NaN"
proof -
  let ?g = "NumberArray [Num b, Num b, Num b, Num b, Num b, Num b, Num b, Num b, Num b]"
  have r: "rd ?g 0 = Num b" "rd ?g 1 = Num b" "rd ?g 2 = Num b" "rd ?g 3 = Num b"
    "rd ?g 4 = Num b" "rd ?g 5 = Num b" "rd ?g 6 = Num b" "rd ?g 7 = Num b" "rd ?g 8 = Num b"
    by (simp_all add: rd_def)
  have i: "nadd PosInf (Num b) = PosInf" by (simp add: nadd_def)
  have "neighborSum ?g 3 4 = PosInf"
    by (simp add: neighborSum_def r assms i)
  moreover have "ndiv PosInf (Num 8) = PosInf" by (simp add: ndiv_def)
  moreover have "nmul PosInf (Num 0) = NaN" by (simp add: nmul_def)
  moreover have "\<And>a. nadd a NaN = NaN" by (simp add: nadd_def)
  moreover have "nmul NaN e = NaN" by (simp add: nmul_def)
  ultimately show ?thesis by (simp add: diffuseCell_def Let_def)
qed

text \<open>
  C6. The ranges of the cells. If the field has \<open>cols * rows\<close> cells, all in
  \<open>[0, maxLevel]\<close>, the amount is \<open>\<ge> 0\<close> and the array holds \<open>maxLevel\<close> unchanged (any
  number on a \<^verbatim>\<open>number[]\<close>, a binary32 value on a \<^verbatim>\<open>Float32Array\<close>), then after
  \<^verbatim>\<open>depositPheromone\<close>, at any coordinates, all cells are in \<open>[0, maxLevel]\<close>. If all
  cells are in \<open>[0, 2\<^sup>1\<^sup>0\<^sup>2\<^sup>0]\<close> (every finite non-negative binary32 value is) and both
  rates are in \<open>[0, 1]\<close>, then all cells of the field that \<^verbatim>\<open>diffusePheromones\<close> returns
  (for a field of \<open>cols * rows\<close> cells) are \<open>\<ge> 0\<close>. If all cells are finite and \<open>\<ge> 0\<close> and
  the rate is in \<open>[0, 1]\<close>, then all cells of the field that \<^verbatim>\<open>evaporatePheromones\<close>
  returns are \<open>\<ge> 0\<close>. The comparisons are those of the language: \<^verbatim>\<open>NaN\<close> is in no
  range, and the negative zero is \<open>\<ge> 0\<close>.
\<close>

theorem range_invariant:
  "(length (cells field) = nat (cols * rows)
      \<and> (\<forall>v \<in> set (cells field). nle (Num 0) v \<and> nle v maxLevel) \<and> nle (Num 0) amount
      \<and> stored field maxLevel = maxLevel \<longrightarrow>
      (\<forall>v \<in> set (cells (snd (depositPheromone field cols rows x y amount maxLevel))).
         nle (Num 0) v \<and> nle v maxLevel))
   \<and> (length (cells field) = nat (cols * rows)
      \<and> (\<forall>v \<in> set (cells field). nle (Num 0) v \<and> nle v (Num (2 ^ 1020)))
      \<and> nle (Num 0) d \<and> nle d (Num 1) \<and> nle (Num 0) e \<and> nle e (Num 1) \<longrightarrow>
      (\<forall>v \<in> set (cells (diffusePheromones field cols rows d e)). nle (Num 0) v))
   \<and> ((\<forall>v \<in> set (cells field). nle (Num 0) v \<and> \<not> isInf v)
      \<and> nle (Num 0) e \<and> nle e (Num 1) \<longrightarrow>
      (\<forall>v \<in> set (cells (evaporatePheromones field e)). nle (Num 0) v))"
proof (intro conjI impI)
  assume "length (cells field) = nat (cols * rows)
      \<and> (\<forall>v \<in> set (cells field). nle (Num 0) v \<and> nle v maxLevel) \<and> nle (Num 0) amount
      \<and> stored field maxLevel = maxLevel"
  then show "\<forall>v \<in> set (cells (snd (depositPheromone field cols rows x y amount maxLevel))).
         nle (Num 0) v \<and> nle v maxLevel"
    by (intro deposit_range) simp_all
next
  assume "length (cells field) = nat (cols * rows)
      \<and> (\<forall>v \<in> set (cells field). nle (Num 0) v \<and> nle v (Num (2 ^ 1020)))
      \<and> nle (Num 0) d \<and> nle d (Num 1) \<and> nle (Num 0) e \<and> nle e (Num 1)"
  then show "\<forall>v \<in> set (cells (diffusePheromones field cols rows d e)). nle (Num 0) v"
    by (intro diffuse_nonneg) simp_all
next
  assume "(\<forall>v \<in> set (cells field). nle (Num 0) v \<and> \<not> isInf v)
      \<and> nle (Num 0) e \<and> nle e (Num 1)"
  then show "\<forall>v \<in> set (cells (evaporatePheromones field e)). nle (Num 0) v"
    by (intro evaporate_nonneg) simp_all
qed

theorem range_invariant_witness:
  "nle (Num 0) (rd (snd (depositPheromone (Float32Array [Num 1, Num 2, Num 3, Num 4]) 2 2 1 1
        (Num 3) (Num 4))) 3)
   \<and> nle (rd (snd (depositPheromone (Float32Array [Num 1, Num 2, Num 3, Num 4]) 2 2 1 1
        (Num 3) (Num 4))) 3) (Num 4)
   \<and> nle (Num 0)
        (rd (diffusePheromones
           (NumberArray [Num 1, Num 2, Num 3, Num 4, Num 8, Num 5, Num 6, Num 7, Num 9])
               3 3 (Num (1/2)) (Num (1/2))) 4)
   \<and> nle (Num 0) (rd (evaporatePheromones (Float32Array [Num 1, Num 2, Num 3, Num 4]) (Num (1/2))) 3)"
proof -
  let ?f = "Float32Array [Num 1, Num 2, Num 3, Num 4]"
  let ?g = "NumberArray [Num 1, Num 2, Num 3, Num 4, Num 8, Num 5, Num 6, Num 7, Num 9]"
  have h1: "length (cells ?f) = nat (2 * 2)
            \<and> (\<forall>v \<in> set (cells ?f). nle (Num 0) v \<and> nle v (Num 4))
            \<and> nle (Num 0) (Num 3) \<and> stored ?f (Num 4) = Num 4"
    by (simp add: number_ops)
  have h2: "length (cells ?g) = nat (3 * 3)
            \<and> (\<forall>v \<in> set (cells ?g). nle (Num 0) v \<and> nle v (Num (2 ^ 1020)))
            \<and> nle (Num 0) (Num (1/2)) \<and> nle (Num (1/2)) (Num 1)
            \<and> nle (Num 0) (Num (1/2)) \<and> nle (Num (1/2)) (Num 1)"
    by simp
  have h3: "(\<forall>v \<in> set (cells ?f). nle (Num 0) v \<and> \<not> isInf v)
            \<and> nle (Num 0) (Num (1/2)) \<and> nle (Num (1/2)) (Num 1)" by simp
  have l: "length (cells (snd (depositPheromone ?f 2 2 1 1 (Num 3) (Num 4)))) = 4"
    by (simp add: deposit_in_bounds)
  have 1: "nle (Num 0) (rd (snd (depositPheromone ?f 2 2 1 1 (Num 3) (Num 4))) 3)
           \<and> nle (rd (snd (depositPheromone ?f 2 2 1 1 (Num 3) (Num 4))) 3) (Num 4)"
    using range_invariant [where field = ?f and cols = 2 and rows = 2 and x = 1 and y = 1
        and amount = "Num 3" and maxLevel = "Num 4", THEN conjunct1, THEN mp, OF h1,
        unfolded all_cells_iff [of "snd (depositPheromone ?f 2 2 1 1 (Num 3) (Num 4))"],
        rule_format, of 3] l
    by simp
  have 2: "nle (Num 0) (rd (diffusePheromones ?g 3 3 (Num (1/2)) (Num (1/2))) 4)"
    using range_invariant [where field = ?g and cols = 3 and rows = 3 and d = "Num (1/2)"
        and e = "Num (1/2)",
        THEN conjunct2, THEN conjunct1, THEN mp, OF h2,
        unfolded all_cells_iff [of "diffusePheromones ?g 3 3 (Num (1/2)) (Num (1/2))"],
        rule_format, of 4]
    by simp
  have 3: "nle (Num 0) (rd (evaporatePheromones ?f (Num (1/2))) 3)"
    using range_invariant [where field = ?f and e = "Num (1/2)",
        THEN conjunct2, THEN conjunct2, THEN mp, OF h3,
        unfolded all_cells_iff [of "evaporatePheromones ?f (Num (1/2))"], rule_format, of 3]
    by simp
  from 1 2 3 show ?thesis by blast
qed

text \<open>
  Three fields whose cells are in range and whose results are not. A deposit of 1 into
  a \<^verbatim>\<open>Float32Array\<close> whose one cell holds 0, with the binary64 value nearest to 0.1 for
  the maximum, leaves the binary32 value nearest to it, above the maximum. On a 3 by 3
  \<^verbatim>\<open>number[]\<close> of cells \<open>2\<^sup>1\<^sup>0\<^sup>2\<^sup>3\<close> the sum of the neighbours overflows, and with the
  diffusion rate 0 the centre becomes \<^verbatim>\<open>NaN\<close>. An infinite cell, which is \<open>\<ge> 0\<close>,
  becomes \<^verbatim>\<open>NaN\<close> when the evaporation rate is 0.
\<close>

theorem range_invariant_counterexample:
  "nle (Num 0) (Num 0) \<and> nle (Num 0) (Num (3602879701896397 / 36028797018963968))
   \<and> nle (Num 0) (Num 1)
   \<and> cells (snd (depositPheromone (Float32Array [Num 0]) 1 1 0 0 (Num 1)
         (Num (3602879701896397 / 36028797018963968))))
       = [Num (13421773 / 134217728)]
   \<and> \<not> nle (Num (13421773 / 134217728)) (Num (3602879701896397 / 36028797018963968))
   \<and> nle (Num 0) (Num (2 ^ 1023))
   \<and> rd (diffusePheromones
          (NumberArray [Num (2 ^ 1023), Num (2 ^ 1023), Num (2 ^ 1023),
                        Num (2 ^ 1023), Num (2 ^ 1023), Num (2 ^ 1023),
                        Num (2 ^ 1023), Num (2 ^ 1023), Num (2 ^ 1023)]) 3 3 (Num 0) (Num 1)) 4
       = NaN
   \<and> \<not> nle (Num 0) NaN
   \<and> nle (Num 0) PosInf
   \<and> cells (evaporatePheromones (Float32Array [PosInf]) (Num 0)) = [NaN]"
proof -
  let ?t = "3602879701896397 / 36028797018963968 :: real"
  have 1: "cells (snd (depositPheromone (Float32Array [Num 0]) 1 1 0 0 (Num 1) (Num ?t)))
       = [Num (13421773 / 134217728)]"
    by (simp add: depositPheromone_def rd_def number_ops nlt_def round32_tenth)
  let ?g = "NumberArray [Num (2 ^ 1023), Num (2 ^ 1023), Num (2 ^ 1023),
                        Num (2 ^ 1023), Num (2 ^ 1023), Num (2 ^ 1023),
                        Num (2 ^ 1023), Num (2 ^ 1023), Num (2 ^ 1023)]"
  have r0: "round64 (2 ^ 1024) = 2 ^ 1024"
    by (rule round64_fixedI[where m = 1 and q = 1024]) simp_all
  have e: "(2::real) ^ 1023 + 2 ^ 1023 = 2 ^ 1024" by simp
  have r: "round64 (2 ^ 1023 + 2 ^ 1023) = 2 ^ 1024"
    unfolding e by (rule r0)
  have "pack round64 (2 ^ 1024) False (2 ^ 1023 + 2 ^ 1023)
      = signedInf (2 ^ 1023 + 2 ^ 1023 < (0::real))"
    by (rule pack_overflow[where rnd = round64 and z = "2 ^ 1023 + 2 ^ 1023" and r = "2 ^ 1024", OF _ r])
       simp_all
  then have o: "nadd (Num (2 ^ 1023)) (Num (2 ^ 1023)) = PosInf"
    by (simp add: nadd_Num_Num fin64_def)
  have "rd (diffusePheromones ?g 3 3 (Num 0) (Num 1)) (1 + 1 * 3)
      = toFloat32 (diffuseCell ?g 3 (Num 0) (Num 1) (1 + 1 * 3))"
    by (rule diffuse_interior) simp_all
  moreover have "diffuseCell ?g 3 (Num 0) (Num 1) 4 = NaN"
    using o by (rule diffuseCell_overflow)
  ultimately have 2: "rd (diffusePheromones ?g 3 3 (Num 0) (Num 1)) 4 = NaN" by simp
  have 3: "cells (evaporatePheromones (Float32Array [PosInf]) (Num 0)) = [NaN]"
    by (simp add: evaporatePheromones_def newFloat32Array_def evaporateFrom.simps upd_def rd_def
        nmul_def)
  show ?thesis unfolding 1 2 3 by (simp add: nle_def)
qed

section \<open>Cell keys\<close>

lemma digit_cases:
  assumes "d < 10"
  shows "d \<in> {0, 1, 2, 3, 4, 5, 6, 7, 8, 9 :: nat}"
  using assms by auto

lemma digitChar_in: "d < 10 \<Longrightarrow> digitChar d \<in> set ''0123456789''"
  using digit_cases[of d] by (auto simp: digitChar_def)

lemma digitChar_inj: "a < 10 \<Longrightarrow> b < 10 \<Longrightarrow> digitChar a = digitChar b \<Longrightarrow> a = b"
  using digit_cases[of a] digit_cases[of b] by (auto simp: digitChar_def)

lemma natToString_digits: "set (natToString n) \<subseteq> set ''0123456789''"
proof (induction n rule: natToString.induct)
  case (1 n)
  show ?case
  proof (cases "n < 10")
    case True
    then show ?thesis using digitChar_in[of n] by (subst natToString.simps) simp
  next
    case False
    have "n mod 10 < 10" by simp
    then have "digitChar (n mod 10) \<in> set ''0123456789''" by (rule digitChar_in)
    with False "1.IH" show ?thesis by (subst natToString.simps) simp
  qed
qed

lemma natToString_nonempty: "natToString n \<noteq> []"
  by (subst natToString.simps) simp

lemma natToString_inj: "natToString n = natToString m \<Longrightarrow> n = m"
proof (induction n arbitrary: m rule: natToString.induct)
  case (1 n)
  show ?case
  proof (cases "n < 10")
    case n: True
    show ?thesis
    proof (cases "m < 10")
      case True
      with n "1.prems" have "digitChar n = digitChar m"
        by (simp add: natToString.simps[of n] natToString.simps[of m])
      with n True show ?thesis by (rule digitChar_inj)
    next
      case False
      with n "1.prems" have "[digitChar n] = natToString (m div 10) @ [digitChar (m mod 10)]"
        by (simp add: natToString.simps[of n] natToString.simps[of m])
      then have "natToString (m div 10) = []" by simp
      then show ?thesis by (simp add: natToString_nonempty)
    qed
  next
    case n: False
    show ?thesis
    proof (cases "m < 10")
      case True
      with n "1.prems" have "natToString (n div 10) @ [digitChar (n mod 10)] = [digitChar m]"
        by (simp add: natToString.simps[of n] natToString.simps[of m])
      then have "natToString (n div 10) = []" by simp
      then show ?thesis by (simp add: natToString_nonempty)
    next
      case False
      with n "1.prems" have e: "natToString (n div 10) @ [digitChar (n mod 10)]
          = natToString (m div 10) @ [digitChar (m mod 10)]"
        by (simp add: natToString.simps[of n] natToString.simps[of m])
      then have "natToString (n div 10) = natToString (m div 10)" by simp
      with n have d: "n div 10 = m div 10" by (intro "1.IH") simp_all
      from e have "digitChar (n mod 10) = digitChar (m mod 10)" by simp
      then have "n mod 10 = m mod 10" by (intro digitChar_inj) simp_all
      with d show ?thesis by (metis div_mult_mod_eq)
    qed
  qed
qed

lemma hd_natToString_digit: "hd (natToString n) \<in> set ''0123456789''"
proof -
  have "hd (natToString n) \<in> set (natToString n)"
    by (rule hd_in_set) (rule natToString_nonempty)
  with natToString_digits[of n] show ?thesis by (rule subsetD)
qed

lemma intToString_inj: "intToString i = intToString j \<Longrightarrow> i = j"
proof -
  assume e: "intToString i = intToString j"
  have nd: "\<And>n. natToString n \<noteq> CHR ''-'' # s" for s
  proof
    fix n assume "natToString n = CHR ''-'' # s"
    then have "hd (natToString n) = CHR ''-''" by simp
    with hd_natToString_digit[of n] show False by simp
  qed
  show ?thesis
  proof (cases "i < 0"; cases "j < 0")
    assume "i < 0" "j < 0"
    with e have "natToString (nat (- i)) = natToString (nat (- j))" by (simp add: intToString_def)
    then have "nat (- i) = nat (- j)" by (rule natToString_inj)
    with \<open>i < 0\<close> \<open>j < 0\<close> show ?thesis by simp
  next
    assume "i < 0" "\<not> j < 0"
    with e have "natToString (nat j) = CHR ''-'' # natToString (nat (- i))"
      by (simp add: intToString_def)
    with nd show ?thesis by blast
  next
    assume "\<not> i < 0" "j < 0"
    with e have "natToString (nat i) = CHR ''-'' # natToString (nat (- j))"
      by (simp add: intToString_def)
    with nd show ?thesis by blast
  next
    assume "\<not> i < 0" "\<not> j < 0"
    with e have "natToString (nat i) = natToString (nat j)" by (simp add: intToString_def)
    then have "nat i = nat j" by (rule natToString_inj)
    with \<open>\<not> i < 0\<close> \<open>\<not> j < 0\<close> show ?thesis by simp
  qed
qed

lemma intToString_chars: "set (intToString i) \<subseteq> set ''-0123456789''"
proof -
  have sub: "set ''0123456789'' \<subseteq> set ''-0123456789''" by simp
  have d: "set (natToString n) \<subseteq> set ''-0123456789''" for n
    using natToString_digits[of n] sub by (rule subset_trans)
  show ?thesis
  proof (cases "i < 0")
    case True
    then have "set (intToString i) = insert CHR ''-'' (set (natToString (nat (- i))))"
      by (simp add: intToString_def)
    with d[of "nat (- i)"] show ?thesis by simp
  next
    case False
    then show ?thesis using d[of "nat i"] by (simp add: intToString_def)
  qed
qed

lemma intToString_second:
  "intToString i = c # s \<Longrightarrow> s \<noteq> [] \<Longrightarrow> hd s \<in> set ''0123456789''"
proof -
  assume e: "intToString i = c # s" and s: "s \<noteq> []"
  show ?thesis
  proof (cases "i < 0")
    case True
    with e have "s = natToString (nat (- i))" by (simp add: intToString_def)
    then show ?thesis using hd_natToString_digit by simp
  next
    case False
    with e have "natToString (nat i) = c # s" by (simp add: intToString_def)
    moreover from s have "hd s \<in> set s" by simp
    ultimately show ?thesis using natToString_digits[of "nat i"] by auto
  qed
qed

lemma cellToString_inj: "cellToString a = cellToString b \<Longrightarrow> a = b"
proof -
  assume e: "cellToString a = cellToString b"
  have inf: "intToString i \<noteq> ''Infinity''" for i
  proof
    assume "intToString i = ''Infinity''"
    then have "CHR ''I'' \<in> set (intToString i)" by simp
    with intToString_chars[of i] have "CHR ''I'' \<in> set ''-0123456789''" by (rule subsetD)
    then show False by simp
  qed
  have nan: "intToString i \<noteq> ''NaN''" for i
  proof
    assume "intToString i = ''NaN''"
    then have "CHR ''N'' \<in> set (intToString i)" by simp
    with intToString_chars[of i] have "CHR ''N'' \<in> set ''-0123456789''" by (rule subsetD)
    then show False by simp
  qed
  have ninf: "intToString i \<noteq> ''-Infinity''" for i
  proof
    assume "intToString i = ''-Infinity''"
    then have "hd ''Infinity'' \<in> set ''0123456789''"
      by (rule intToString_second) simp
    then show False by simp
  qed
  note ne = inf nan ninf inf[symmetric] nan[symmetric] ninf[symmetric]
  show ?thesis
  proof (cases a)
    case (Cell i)
    with e ne show ?thesis by (cases b) (auto dest: intToString_inj)
  next
    case PosInfinity
    with e ne show ?thesis by (cases b) simp_all
  next
    case NegInfinity
    with e ne show ?thesis by (cases b) simp_all
  next
    case NotANumber
    with e ne show ?thesis by (cases b) simp_all
  qed
qed

lemma cellToString_no_comma: "CHR '','' \<notin> set (cellToString a)"
proof (cases a)
  case (Cell i)
  have "CHR '','' \<notin> set ''-0123456789''" by simp
  with intToString_chars[of i] have "CHR '','' \<notin> set (intToString i)" by blast
  with Cell show ?thesis by simp
qed simp_all

lemma split_at_comma:
  assumes "CHR '','' \<notin> set a" "CHR '','' \<notin> set a'" "a @ '','' @ b = a' @ '','' @ b'"
  shows "a = a' \<and> b = b'"
proof -
  have tw: "CHR '','' \<notin> set u \<Longrightarrow> takeWhile (\<lambda>c. c \<noteq> CHR '','') (u @ '','' @ v) = u"
    for u v
    by (induction u) auto
  have "takeWhile (\<lambda>c. c \<noteq> CHR '','') (a @ '','' @ b) = a"
    using assms(1) by (rule tw)
  moreover have "takeWhile (\<lambda>c. c \<noteq> CHR '','') (a' @ '','' @ b') = a'"
    using assms(2) by (rule tw)
  ultimately have "a = a'" using assms(3) by simp
  with assms(3) show ?thesis by simp
qed

lemma makeKey_inj: "makeKey a b = makeKey a' b' \<longleftrightarrow> a = a' \<and> b = b'"
proof
  assume "makeKey a b = makeKey a' b'"
  then have "cellToString a = cellToString a' \<and> cellToString b = cellToString b'"
    unfolding makeKey_def by (intro split_at_comma cellToString_no_comma)
  then show "a = a' \<and> b = b'" by (simp add: cellToString_inj)
qed simp

lemma round64_half: "round64 (1 / 2) = 1 / 2"
  by (rule round64_fixedI[where m = 1 and q = "- 1"]) simp_all

lemma round64_three_halves: "round64 (3 / 2) = 3 / 2"
  by (rule round64_fixedI[where m = 3 and q = "- 1"]) simp_all

lemma round64_seven_quarters: "round64 (7 / 4) = 7 / 4"
  by (rule round64_fixedI[where m = 7 and q = "- 2"]) simp_all

text \<open>
  C8. \<^verbatim>\<open>getCellKey\<close> is a function of the two cell coordinates and never maps two
  different coordinate pairs to one key: two positions get the same key exactly when
  their cell coordinates agree on both axes, and the keys of two pairs of integers are
  equal exactly when the pairs are. In particular \<open>(- c, d)\<close> and \<open>(c, d)\<close> get different
  keys unless \<open>c = 0\<close>.
\<close>

theorem getCellKey_collision_free:
  "(getCellKey p cellSize = getCellKey q cellSize
      \<longleftrightarrow> floorDiv (vec_x p) cellSize = floorDiv (vec_x q) cellSize
          \<and> floorDiv (vec_y p) cellSize = floorDiv (vec_y q) cellSize)
   \<and> (makeKey (Cell cx) (Cell cy) = makeKey (Cell cx') (Cell cy') \<longleftrightarrow> cx = cx' \<and> cy = cy')
   \<and> (makeKey (Cell (- cx)) (Cell cy) = makeKey (Cell cx) (Cell cy) \<longleftrightarrow> cx = 0)"
  by (simp add: getCellKey_def Let_def makeKey_inj)

theorem getCellKey_collision_free_witness:
  "getCellKey \<lparr>vec_x = Num (- 25), vec_y = Num 75\<rparr> (Num 50)
     \<noteq> getCellKey \<lparr>vec_x = Num 25, vec_y = Num 75\<rparr> (Num 50)
   \<and> getCellKey \<lparr>vec_x = Num 75, vec_y = Num 75\<rparr> (Num 50)
     = getCellKey \<lparr>vec_x = Num 50, vec_y = Num (175 / 2)\<rparr> (Num 50)"
proof -
  have 1: "floorDiv (Num (- 25)) (Num 50) \<noteq> floorDiv (Num 25) (Num 50)"
    by (simp add: floorDiv_def number_ops round64_minus round64_half)
  have 2: "floorDiv (Num 75) (Num 50) = floorDiv (Num 50) (Num 50)"
    "floorDiv (Num 75) (Num 50) = floorDiv (Num (175 / 2)) (Num 50)"
    by (simp_all add: floorDiv_def number_ops round64_three_halves round64_seven_quarters)
  from 1 have "getCellKey \<lparr>vec_x = Num (- 25), vec_y = Num 75\<rparr> (Num 50)
      \<noteq> getCellKey \<lparr>vec_x = Num 25, vec_y = Num 75\<rparr> (Num 50)"
    using getCellKey_collision_free [of "\<lparr>vec_x = Num (- 25), vec_y = Num 75\<rparr>" "Num 50"
        "\<lparr>vec_x = Num 25, vec_y = Num 75\<rparr>", THEN conjunct1]
    by simp
  moreover from 2
  have "getCellKey \<lparr>vec_x = Num 75, vec_y = Num 75\<rparr> (Num 50)
      = getCellKey \<lparr>vec_x = Num 50, vec_y = Num (175 / 2)\<rparr> (Num 50)"
    using getCellKey_collision_free [of "\<lparr>vec_x = Num 75, vec_y = Num 75\<rparr>" "Num 50"
        "\<lparr>vec_x = Num 50, vec_y = Num (175 / 2)\<rparr>", THEN conjunct1]
    by simp
  ultimately show ?thesis by blast
qed

text \<open>
  C7. \<^verbatim>\<open>worldToGrid\<close> and \<^verbatim>\<open>getCellKey\<close> compute the same cell coordinates: for
  every position and every cell size, the key is the key of the pair that
  \<^verbatim>\<open>worldToGrid\<close> returns, and both components of that pair are
  \<^verbatim>\<open>Math.floor\<close> of the binary64 quotient of the coordinate by the cell size.
\<close>

theorem worldToGrid_getCellKey:
  "getCellKey \<lparr>vec_x = x, vec_y = y\<rparr> s
     = cellToString (gx (worldToGrid x y s)) @ '','' @ cellToString (gy (worldToGrid x y s))
   \<and> gx (worldToGrid x y s) = floorNum (ndiv x s)
   \<and> gy (worldToGrid x y s) = floorNum (ndiv y s)
   \<and> getCellKey \<lparr>vec_x = x, vec_y = y\<rparr> s = makeKey (floorNum (ndiv x s)) (floorNum (ndiv y s))"
  by (simp add: getCellKey_def worldToGrid_def makeKey_def floorDiv_def Let_def)

theorem worldToGrid_getCellKey_witness:
  "worldToGrid (Num (- 25)) (Num 130) (Num 50) = \<lparr>gx = Cell (- 1), gy = Cell 2\<rparr>
   \<and> getCellKey \<lparr>vec_x = Num (- 25), vec_y = Num 130\<rparr> (Num 50) = ''-1,2''
   \<and> gx (worldToGrid (Num (1 / 2)) (Num 0) (Num (3602879701896397 / 36028797018963968))) = Cell 5"
proof -
  have r: "round64 (13 / 5) = 5854679515581645 / 2251799813685248"
  proof (rule round64_evalI[where e = 1 and q = "- 51" and n = 5854679515581645])
    show "roundNE (13 / 5 / 2 powi (- 51)) = 5854679515581645"
      by (rule roundNE_eqI) simp_all
  qed simp_all
  have r': "round64 (18014398509481984 / 3602879701896397) = 5"
  proof (rule round64_evalI[where e = 2 and q = "- 50" and n = 5629499534213120])
    show "roundNE (18014398509481984 / 3602879701896397 / 2 powi (- 50)) = 5629499534213120"
      by (rule roundNE_eqI) simp_all
  qed simp_all
  have f: "floorNum (ndiv (Num (- 25)) (Num 50)) = Cell (- 1)"
    "floorNum (ndiv (Num 130) (Num 50)) = Cell 2"
    "floorNum (ndiv (Num (1 / 2)) (Num (3602879701896397 / 36028797018963968))) = Cell 5"
    by (simp_all add: number_ops round64_minus round64_half r r')
  have n: "natToString (Suc 0) = ''1''" "natToString 2 = ''2''"
    by (simp_all add: natToString.simps digitChar_def)
  from worldToGrid_getCellKey [of "Num (- 25)" "Num 130" "Num 50"]
    worldToGrid_getCellKey [of "Num (1 / 2)" "Num 0" "Num (3602879701896397 / 36028797018963968)"]
  show ?thesis by (simp add: f intToString_def n makeKey_def worldToGrid_def floorDiv_def)
qed

section \<open>The buckets of the hash and the 3 by 3 query\<close>

lemma buildFrom_lookup:
  "buildFrom boids s grid k =
     (if filter (\<lambda>b. getCellKey (pos b) s = k) boids = [] then grid k
      else Some ((case grid k of None \<Rightarrow> [] | Some l \<Rightarrow> l)
                 @ filter (\<lambda>b. getCellKey (pos b) s = k) boids))"
proof (induction boids arbitrary: grid)
  case Nil
  then show ?case by simp
next
  case (Cons boid boids)
  let ?kb = "getCellKey (pos boid) s"
  let ?g1 = "if grid ?kb = None then grid(?kb \<mapsto> []) else grid"
  let ?g2 = "?g1(?kb \<mapsto> the (?g1 ?kb) @ [boid])"
  have step: "buildFrom (boid # boids) s grid = buildFrom boids s ?g2"
    by (simp add: getCellKey_def Let_def)
  have g2: "?g2 k = (if k = ?kb then Some ((case grid k of None \<Rightarrow> [] | Some l \<Rightarrow> l) @ [boid])
                     else grid k)"
    by (auto split: option.splits)
  show ?case
    unfolding step Cons.IH g2
    by (auto split: option.splits)
qed

lemma buildSpatialHash_lookup:
  "buildSpatialHash boids s k =
     (if filter (\<lambda>b. getCellKey (pos b) s = k) boids = [] then None
      else Some (filter (\<lambda>b. getCellKey (pos b) s = k) boids))"
  by (simp add: buildSpatialHash_def buildFrom_lookup)

lemma int_interval_split: "d \<le> 1 \<Longrightarrow> {d..1} = insert d {d + 1..1::int}"
  by auto

lemma set_neighborsDy:
  "set (neighborsDy grid cx cy dx dy ns)
   = set ns \<union> (\<Union>d \<in> {dy..1}.
        set (case grid (makeKey (cellAdd cx dx) (cellAdd cy d)) of None \<Rightarrow> [] | Some l \<Rightarrow> l))"
proof (induction grid cx cy dx dy ns rule: neighborsDy.induct)
  case (1 grid cx cy dx dy ns)
  show ?case
  proof (cases "dy \<le> 1")
    case False
    then show ?thesis by (subst neighborsDy.simps) simp
  next
    case True
    let ?key = "makeKey (cellAdd cx dx) (cellAdd cy dy)"
    let ?ns = "if grid ?key \<noteq> None then ns @ the (grid ?key) else ns"
    have eq: "neighborsDy grid cx cy dx dy ns = neighborsDy grid cx cy dx (dy + 1) ?ns"
      using True by (subst neighborsDy.simps) (simp add: Let_def)
    have nsq: "set ?ns = set ns \<union> set (case grid ?key of None \<Rightarrow> [] | Some l \<Rightarrow> l)"
      by (auto split: option.splits)
    show ?thesis
      unfolding eq "1.IH"[OF True refl] nsq int_interval_split[OF True]
      by auto
  qed
qed

lemma set_neighborsDx:
  "set (neighborsDx grid cx cy dx ns)
   = set ns \<union> (\<Union>a \<in> {dx..1}. \<Union>d \<in> {- 1..1}.
        set (case grid (makeKey (cellAdd cx a) (cellAdd cy d)) of None \<Rightarrow> [] | Some l \<Rightarrow> l))"
proof (induction grid cx cy dx ns rule: neighborsDx.induct)
  case (1 grid cx cy dx ns)
  show ?case
  proof (cases "dx \<le> 1")
    case False
    then show ?thesis by (subst neighborsDx.simps) simp
  next
    case True
    have eq: "neighborsDx grid cx cy dx ns
              = neighborsDx grid cx cy (dx + 1) (neighborsDy grid cx cy dx (- 1) ns)"
      using True by (subst neighborsDx.simps) simp
    show ?thesis
      unfolding eq "1.IH"[OF True] set_neighborsDy int_interval_split[OF True]
      by auto
  qed
qed

lemma getNeighbors_iff:
  "b \<in> set (getNeighbors q (buildSpatialHash boids s) s) \<longleftrightarrow>
     b \<in> set boids \<and>
     (\<exists>a \<in> {- 1..1}. \<exists>d \<in> {- 1..1}.
        floorDiv (vec_x (pos b)) s = cellAdd (floorDiv (vec_x (pos q)) s) a
        \<and> floorDiv (vec_y (pos b)) s = cellAdd (floorDiv (vec_y (pos q)) s) d)"
proof -
  have bucket: "b \<in> set (case buildSpatialHash boids s k of None \<Rightarrow> [] | Some l \<Rightarrow> l)
                \<longleftrightarrow> b \<in> set boids \<and> getCellKey (pos b) s = k" for k
    by (auto simp: buildSpatialHash_lookup filter_empty_conv)
  have key: "getCellKey (pos b) s = makeKey u v
             \<longleftrightarrow> floorDiv (vec_x (pos b)) s = u \<and> floorDiv (vec_y (pos b)) s = v" for u v
    by (simp add: getCellKey_def Let_def makeKey_inj)
  have "b \<in> set (getNeighbors q (buildSpatialHash boids s) s) \<longleftrightarrow>
        (\<exists>a \<in> {- 1..1}. \<exists>d \<in> {- 1..1}.
           b \<in> set (case buildSpatialHash boids s
                          (makeKey (cellAdd (floorDiv (vec_x (pos q)) s) a)
                                   (cellAdd (floorDiv (vec_y (pos q)) s) d))
                       of None \<Rightarrow> [] | Some l \<Rightarrow> l))"
    by (simp only: getNeighbors_def Let_def set_neighborsDx list.set(1) Un_empty_left UN_iff)
  also have "\<dots> \<longleftrightarrow> b \<in> set boids \<and>
     (\<exists>a \<in> {- 1..1}. \<exists>d \<in> {- 1..1}.
        floorDiv (vec_x (pos b)) s = cellAdd (floorDiv (vec_x (pos q)) s) a
        \<and> floorDiv (vec_y (pos b)) s = cellAdd (floorDiv (vec_y (pos q)) s) d)"
    unfolding bucket key by auto
  finally show ?thesis .
qed

section \<open>Cell coordinates are binary64 integers\<close>

lemma roundTo_floor_small:
  assumes p: "1 \<le> p" and fx: "roundTo p qmin x = x"
  shows "of_int \<lfloor>x\<rfloor> = x \<or> \<bar>\<lfloor>x\<rfloor>\<bar> \<le> 2 ^ p"
proof (cases "x = 0")
  case True
  then show ?thesis by simp
next
  case False
  let ?Q = "quantum p qmin x"
  let ?n = "roundNE (x / 2 powi ?Q)"
  have x: "x = of_int ?n * 2 powi ?Q" using False fx by (rule roundTo_fixed_repr)
  have n: "\<bar>?n\<bar> \<le> 2 ^ p" using p False by (rule roundTo_structure)
  show ?thesis
  proof (cases "0 \<le> ?Q")
    case True
    have "x = of_int (?n * 2 ^ nat ?Q)" using True by (subst x) (simp add: pow2_int)
    then have "of_int \<lfloor>x\<rfloor> = x" by (metis floor_of_int)
    then show ?thesis ..
  next
    case neg: False
    then have "(2::real) powi ?Q \<le> 2 powi 0" by (intro pow2_mono) simp
    then have le1: "(2::real) powi ?Q \<le> 1" by simp
    have "\<bar>x\<bar> = of_int \<bar>?n\<bar> * 2 powi ?Q" by (subst x) (simp add: abs_mult)
    also have "\<dots> \<le> of_int \<bar>?n\<bar> * 1" using le1 by (intro mult_left_mono) simp_all
    also have "\<dots> \<le> of_int (2 ^ p)" using n by (simp del: of_int_power of_int_abs)
    finally have "\<bar>x\<bar> \<le> of_int (2 ^ p)" .
    then have "x \<le> of_int (2 ^ p)" "of_int (- (2 ^ p)) \<le> x" by (simp_all add: abs_le_iff)
    then have "\<lfloor>x\<rfloor> \<le> 2 ^ p" "- (2 ^ p) \<le> \<lfloor>x\<rfloor>"
      by (simp_all add: le_floor_iff floor_le_iff del: of_int_power)
    then have "\<bar>\<lfloor>x\<rfloor>\<bar> \<le> 2 ^ p" by (simp add: abs_le_iff)
    then show ?thesis ..
  qed
qed

lemma pack_Num_cases:
  assumes "pack round64 (2 ^ 1024) neg z = Num r"
  shows "round64 r = r \<and> \<bar>r\<bar> < 2 ^ 1024"
proof (cases "z = 0")
  case True
  with assms have "r = 0" by (simp add: signedZero_def split: if_splits)
  then show ?thesis by simp
next
  case False
  show ?thesis
  proof (cases "2 ^ 1024 \<le> \<bar>round64 z\<bar>")
    case True
    with False assms show ?thesis by (simp add: pack_def Let_def signedInf_def split: if_splits)
  next
    case nb: False
    show ?thesis
    proof (cases "round64 z = 0")
      case True
      with False nb assms have "r = 0"
        by (simp add: pack_def Let_def signedZero_def split: if_splits)
      then show ?thesis by simp
    next
      case nz: False
      with False nb assms have r: "r = round64 z" by (simp add: pack_def Let_def)
      have "round64 (round64 z) = round64 z" by simp
      moreover from nb have "\<bar>round64 z\<bar> < 2 ^ 1024" by simp
      ultimately show ?thesis unfolding r by blast
    qed
  qed
qed

lemma ndiv_Num_binary64:
  assumes "ndiv a b = Num r"
  shows "round64 r = r \<and> \<bar>r\<bar> < 2 ^ 1024"
proof -
  from assms have "(\<exists>neg. signedZero neg = Num r) \<or> (\<exists>neg z. fin64 neg z = Num r)"
    by (auto simp: ndiv_def signedInf_def split: if_splits)
  then show ?thesis
  proof
    assume "\<exists>neg. signedZero neg = Num r"
    then have "r = 0" by (auto simp: signedZero_def split: if_splits)
    then show ?thesis by simp
  next
    assume "\<exists>neg z. fin64 neg z = Num r"
    then obtain neg z where "pack round64 (2 ^ 1024) neg z = Num r" by (auto simp: fin64_def)
    then show ?thesis by (rule pack_Num_cases)
  qed
qed

lemma floor_binary64:
  assumes "round64 r = r" "\<bar>r\<bar> < 2 ^ 1024"
  shows "round64 (of_int \<lfloor>r\<rfloor>) = of_int \<lfloor>r\<rfloor> \<and> \<bar>of_int \<lfloor>r\<rfloor> :: real\<bar> < 2 ^ 1024"
proof
  show "round64 (of_int \<lfloor>r\<rfloor>) = of_int \<lfloor>r\<rfloor>" using assms(1) by (rule round64_floor_fixed)
  have "of_int \<lfloor>r\<rfloor> = r \<or> \<bar>\<lfloor>r\<rfloor>\<bar> \<le> 2 ^ 53"
    using assms(1) unfolding round64_def by (intro roundTo_floor_small) simp_all
  then show "\<bar>of_int \<lfloor>r\<rfloor> :: real\<bar> < 2 ^ 1024"
  proof
    assume "of_int \<lfloor>r\<rfloor> = r"
    with assms(2) show ?thesis by (simp only:)
  next
    assume "\<bar>\<lfloor>r\<rfloor>\<bar> \<le> 2 ^ 53"
    then have "\<bar>of_int \<lfloor>r\<rfloor> :: real\<bar> \<le> 2 ^ 53"
      by (metis of_int_abs of_int_le_iff of_int_numeral of_int_power)
    also have "(2::real) ^ 53 < 2 ^ 1024" by simp
    finally show ?thesis .
  qed
qed

lemma floorDiv_Cell_binary64:
  assumes "floorDiv u s = Cell c"
  shows "round64 (of_int c) = of_int c \<and> \<bar>of_int c :: real\<bar> < 2 ^ 1024"
proof (cases "ndiv u s")
  case (Num r)
  with assms have c: "c = \<lfloor>r\<rfloor>" by (simp add: floorDiv_def)
  from Num have "round64 r = r \<and> \<bar>r\<bar> < 2 ^ 1024" by (rule ndiv_Num_binary64)
  then show ?thesis unfolding c by (intro floor_binary64) simp_all
next
  case NegZero
  with assms have "c = 0" by (simp add: floorDiv_def)
  then show ?thesis by simp
qed (use assms in \<open>simp_all add: floorDiv_def\<close>)

lemma cellAdd_exact:
  assumes "round64 (of_int (c + a)) = of_int (c + a)" "\<bar>of_int (c + a) :: real\<bar> < 2 ^ 1024"
  shows "cellAdd (Cell c) a = Cell (c + a)"
proof -
  have "fin64 False (of_int c + of_int a) = Num (of_int (c + a))"
    using fin64_exact[OF assms] by simp
  then show ?thesis by (simp add: cellAdd_def nadd_Num_Num)
qed

lemma cellAdd_small:
  assumes "\<bar>c\<bar> < 2 ^ 53" "a \<in> {- 1..1}"
  shows "cellAdd (Cell c) a = Cell (c + a)"
proof (rule cellAdd_exact)
  from assms have le: "\<bar>c + a\<bar> \<le> 2 ^ 53" by auto
  then show "round64 (of_int (c + a)) = of_int (c + a)" by (rule round64_of_int)
  from le have "\<bar>of_int (c + a) :: real\<bar> \<le> 2 ^ 53"
    by (metis of_int_abs of_int_le_iff of_int_numeral of_int_power)
  also have "(2::real) ^ 53 < 2 ^ 1024" by simp
  finally show "\<bar>of_int (c + a) :: real\<bar> < 2 ^ 1024" .
qed

lemma near_iff:
  fixes bx qx bz qz :: int
  shows "\<bar>bx - qx\<bar> \<le> 1 \<and> \<bar>bz - qz\<bar> \<le> 1 \<longleftrightarrow>
        (\<exists>a \<in> {- 1..1}. \<exists>d \<in> {- 1..1}. bx = qx + a \<and> bz = qz + d)"
proof
  assume "\<bar>bx - qx\<bar> \<le> 1 \<and> \<bar>bz - qz\<bar> \<le> 1"
  then have "bx - qx \<in> {- 1..1}" "bz - qz \<in> {- 1..1}" "bx = qx + (bx - qx)"
    "bz = qz + (bz - qz)" by auto
  then show "\<exists>a \<in> {- 1..1}. \<exists>d \<in> {- 1..1}. bx = qx + a \<and> bz = qz + d" by blast
next
  assume "\<exists>a \<in> {- 1..1}. \<exists>d \<in> {- 1..1}. bx = qx + a \<and> bz = qz + d"
  then show "\<bar>bx - qx\<bar> \<le> 1 \<and> \<bar>bz - qz\<bar> \<le> 1" by auto
qed

text \<open>
  C2. For a list of boids, a boid \<open>b\<close> of the list and a query boid \<open>q\<close> whose cell
  coordinates are integers (as they are for finite positions and a cell size \<open>> 0\<close>,
  unless the quotient overflows): if the cell of \<open>b\<close> is at most one cell away from the
  cell of \<open>q\<close> on both axes (as it is when \<open>b\<close> is \<open>q\<close>), then \<open>b\<close> is among the neighbours
  of \<open>q\<close> in the hash of the list. If both cell coordinates of \<open>q\<close> are below \<open>2\<^sup>5\<^sup>3\<close> in
  absolute value, so that \<^verbatim>\<open>cellX + dx\<close> is computed exactly, then \<open>b\<close> is among the
  neighbours exactly when its cell is at most one cell away on both axes; in particular
  it is not among them when it is two or more cells away on both axes.
\<close>

theorem getNeighbors_3x3:
  assumes "b \<in> set boids"
    and "floorDiv (vec_x (pos b)) cellSize = Cell bx"
    and "floorDiv (vec_y (pos b)) cellSize = Cell bz"
    and "floorDiv (vec_x (pos q)) cellSize = Cell qx"
    and "floorDiv (vec_y (pos q)) cellSize = Cell qz"
  shows "(\<bar>bx - qx\<bar> \<le> 1 \<and> \<bar>bz - qz\<bar> \<le> 1
          \<longrightarrow> b \<in> set (getNeighbors q (buildSpatialHash boids cellSize) cellSize))
     \<and> (\<bar>qx\<bar> < 2 ^ 53 \<and> \<bar>qz\<bar> < 2 ^ 53 \<longrightarrow>
          (b \<in> set (getNeighbors q (buildSpatialHash boids cellSize) cellSize)
             \<longleftrightarrow> \<bar>bx - qx\<bar> \<le> 1 \<and> \<bar>bz - qz\<bar> \<le> 1))
     \<and> (\<bar>qx\<bar> < 2 ^ 53 \<and> \<bar>qz\<bar> < 2 ^ 53 \<and> 2 \<le> \<bar>bx - qx\<bar> \<and> 2 \<le> \<bar>bz - qz\<bar>
          \<longrightarrow> b \<notin> set (getNeighbors q (buildSpatialHash boids cellSize) cellSize))"
proof -
  let ?N = "set (getNeighbors q (buildSpatialHash boids cellSize) cellSize)"
  have mem: "b \<in> ?N \<longleftrightarrow>
        (\<exists>a \<in> {- 1..1}. \<exists>d \<in> {- 1..1}. Cell bx = cellAdd (Cell qx) a \<and> Cell bz = cellAdd (Cell qz) d)"
    using assms by (simp add: getNeighbors_iff)
  have bxd: "round64 (of_int bx) = of_int bx \<and> \<bar>of_int bx :: real\<bar> < 2 ^ 1024"
    using assms(2) by (rule floorDiv_Cell_binary64)
  have bzd: "round64 (of_int bz) = of_int bz \<and> \<bar>of_int bz :: real\<bar> < 2 ^ 1024"
    using assms(3) by (rule floorDiv_Cell_binary64)
  have 1: "\<bar>bx - qx\<bar> \<le> 1 \<and> \<bar>bz - qz\<bar> \<le> 1 \<longrightarrow> b \<in> ?N"
  proof
    assume "\<bar>bx - qx\<bar> \<le> 1 \<and> \<bar>bz - qz\<bar> \<le> 1"
    then obtain a d where ad: "a \<in> {- 1..1}" "d \<in> {- 1..1}" "bx = qx + a" "bz = qz + d"
      unfolding near_iff by blast
    have "cellAdd (Cell qx) a = Cell (qx + a)"
      using bxd unfolding ad(3) by (intro cellAdd_exact) simp_all
    moreover have "cellAdd (Cell qz) d = Cell (qz + d)"
      using bzd unfolding ad(4) by (intro cellAdd_exact) simp_all
    ultimately have "Cell bx = cellAdd (Cell qx) a \<and> Cell bz = cellAdd (Cell qz) d"
      using ad(3,4) by simp
    with ad(1,2) show "b \<in> ?N" unfolding mem by blast
  qed
  have 2: "\<bar>qx\<bar> < 2 ^ 53 \<and> \<bar>qz\<bar> < 2 ^ 53 \<longrightarrow> (b \<in> ?N \<longleftrightarrow> \<bar>bx - qx\<bar> \<le> 1 \<and> \<bar>bz - qz\<bar> \<le> 1)"
  proof
    assume s: "\<bar>qx\<bar> < 2 ^ 53 \<and> \<bar>qz\<bar> < 2 ^ 53"
    have "b \<in> ?N \<longleftrightarrow> (\<exists>a \<in> {- 1..1}. \<exists>d \<in> {- 1..1}. bx = qx + a \<and> bz = qz + d)"
      unfolding mem using s by (simp add: cellAdd_small)
    then show "b \<in> ?N \<longleftrightarrow> \<bar>bx - qx\<bar> \<le> 1 \<and> \<bar>bz - qz\<bar> \<le> 1" by (simp only: near_iff)
  qed
  from 2 have 3: "\<bar>qx\<bar> < 2 ^ 53 \<and> \<bar>qz\<bar> < 2 ^ 53 \<and> 2 \<le> \<bar>bx - qx\<bar> \<and> 2 \<le> \<bar>bz - qz\<bar> \<longrightarrow> b \<notin> ?N"
    by auto
  from 1 2 3 show ?thesis by blast
qed

theorem getNeighbors_3x3_witness:
  "boidAt (Num 75) (Num 25) \<in> set (getNeighbors (boidAt (Num 25) (Num 25))
      (buildSpatialHash [boidAt (Num 25) (Num 25), boidAt (Num 75) (Num 25), boidAt (Num 175) (Num 175)]
         (Num 50)) (Num 50))
   \<and> boidAt (Num 25) (Num 25) \<in> set (getNeighbors (boidAt (Num 25) (Num 25))
      (buildSpatialHash [boidAt (Num 25) (Num 25), boidAt (Num 75) (Num 25), boidAt (Num 175) (Num 175)]
         (Num 50)) (Num 50))
   \<and> boidAt (Num 175) (Num 175) \<notin> set (getNeighbors (boidAt (Num 25) (Num 25))
      (buildSpatialHash [boidAt (Num 25) (Num 25), boidAt (Num 75) (Num 25), boidAt (Num 175) (Num 175)]
         (Num 50)) (Num 50))"
proof -
  let ?l = "[boidAt (Num 25) (Num 25), boidAt (Num 75) (Num 25), boidAt (Num 175) (Num 175)]"
  have m: "boidAt (Num 75) (Num 25) \<in> set ?l" "boidAt (Num 25) (Num 25) \<in> set ?l"
    "boidAt (Num 175) (Num 175) \<in> set ?l" by simp_all
  have p: "vec_x (pos (boidAt x y)) = x" "vec_y (pos (boidAt x y)) = y" for x y
    by (simp_all add: boidAt_def)
  have r: "round64 (7 / 2) = 7 / 2"
    by (rule round64_fixedI[where m = 7 and q = "- 1"]) simp_all
  have f: "floorDiv (Num 25) (Num 50) = Cell 0" "floorDiv (Num 75) (Num 50) = Cell 1"
    "floorDiv (Num 175) (Num 50) = Cell 3"
    by (simp_all add: floorDiv_def number_ops round64_half round64_three_halves r)
  have 1: "boidAt (Num 75) (Num 25) \<in> set (getNeighbors (boidAt (Num 25) (Num 25))
      (buildSpatialHash ?l (Num 50)) (Num 50))"
    using getNeighbors_3x3 [OF m(1), of "Num 50" 1 0 "boidAt (Num 25) (Num 25)" 0 0, THEN conjunct1]
    by (simp add: p f)
  have 2: "boidAt (Num 25) (Num 25) \<in> set (getNeighbors (boidAt (Num 25) (Num 25))
      (buildSpatialHash ?l (Num 50)) (Num 50))"
    using getNeighbors_3x3 [OF m(2), of "Num 50" 0 0 "boidAt (Num 25) (Num 25)" 0 0, THEN conjunct1]
    by (simp add: p f)
  have 3: "boidAt (Num 175) (Num 175) \<notin> set (getNeighbors (boidAt (Num 25) (Num 25))
      (buildSpatialHash ?l (Num 50)) (Num 50))"
    using getNeighbors_3x3 [OF m(3), of "Num 50" 3 3 "boidAt (Num 25) (Num 25)" 0 0,
        THEN conjunct2, THEN conjunct2]
    by (simp add: p f)
  from 1 2 3 show ?thesis by blast
qed

text \<open>
  With the cell size 1, a boid \<open>b\<close> in the cell \<open>2\<^sup>5\<^sup>3 + 4\<close> on both axes and a query boid
  in the cell \<open>2\<^sup>5\<^sup>3 + 2\<close> on both axes, two cells away: \<^verbatim>\<open>cellX + 1\<close> is the binary64
  sum, which is \<open>2\<^sup>5\<^sup>3 + 4\<close>, and \<open>b\<close> is among the neighbours.
\<close>

theorem getNeighbors_3x3_counterexample:
  "floorDiv (vec_x (pos (boidAt (Num 9007199254740996) (Num 9007199254740996)))) (Num 1)
     = Cell 9007199254740996
   \<and> floorDiv (vec_y (pos (boidAt (Num 9007199254740996) (Num 9007199254740996)))) (Num 1)
     = Cell 9007199254740996
   \<and> floorDiv (vec_x (pos (boidAt (Num 9007199254740994) (Num 9007199254740994)))) (Num 1)
     = Cell 9007199254740994
   \<and> floorDiv (vec_y (pos (boidAt (Num 9007199254740994) (Num 9007199254740994)))) (Num 1)
     = Cell 9007199254740994
   \<and> (2::int) \<le> \<bar>9007199254740996 - 9007199254740994\<bar>
   \<and> boidAt (Num 9007199254740996) (Num 9007199254740996)
       \<in> set (getNeighbors (boidAt (Num 9007199254740994) (Num 9007199254740994))
           (buildSpatialHash [boidAt (Num 9007199254740996) (Num 9007199254740996)] (Num 1))
           (Num 1))"
proof -
  have p: "vec_x (pos (boidAt x y)) = x" "vec_y (pos (boidAt x y)) = y" for x y
    by (simp_all add: boidAt_def)
  have r4: "round64 9007199254740996 = 9007199254740996"
    by (rule round64_fixedI[where m = 4503599627370498 and q = 1]) simp_all
  have r2: "round64 9007199254740994 = 9007199254740994"
    by (rule round64_fixedI[where m = 4503599627370497 and q = 1]) simp_all
  have r3: "round64 9007199254740995 = 9007199254740996"
  proof (rule round64_evalI[where e = 53 and q = 1 and n = 4503599627370498])
    show "roundNE (9007199254740995 / 2 powi 1) = 4503599627370498"
      by (simp add: roundNE_tie[where n = 4503599627370497])
  qed simp_all
  have f: "floorDiv (Num 9007199254740996) (Num 1) = Cell 9007199254740996"
    "floorDiv (Num 9007199254740994) (Num 1) = Cell 9007199254740994"
    by (simp_all add: floorDiv_def number_ops r4 r2)
  have a: "cellAdd (Cell 9007199254740994) 1 = Cell 9007199254740996"
    by (simp add: cellAdd_def number_ops r3)
  have "boidAt (Num 9007199254740996) (Num 9007199254740996)
       \<in> set (getNeighbors (boidAt (Num 9007199254740994) (Num 9007199254740994))
           (buildSpatialHash [boidAt (Num 9007199254740996) (Num 9007199254740996)] (Num 1))
           (Num 1))"
    unfolding getNeighbors_iff p f
    by (intro conjI bexI[of _ 1]) (simp_all add: a)
  then show ?thesis by (simp add: p f)
qed

section \<open>The step functions in the store\<close>

lemma wr_as_update:
  "a < length st \<Longrightarrow> wr (st[a := Float32Array u]) a i v = st[a := Float32Array (upd u i v)]"
  by (simp add: wr_def upd_def)

lemma evaporateFromStore_eq:
  assumes "next \<noteq> field" "next < length st"
  shows "evaporateFromStore field next e i (st[next := Float32Array u])
         = st[next := Float32Array (evaporateFrom (st ! field) e i u)]"
  using assms
proof (induction "st ! field" e i u arbitrary: rule: evaporateFrom.induct)
  case (1 e i u)
  show ?case
  proof (cases "i < int (length (cells (st ! field)))")
    case False
    with 1(2) show ?thesis
      by (subst evaporateFromStore.simps, subst evaporateFrom.simps) simp
  next
    case True
    from 1(2,3) True show ?thesis
      by (subst evaporateFromStore.simps, subst evaporateFrom.simps)
         (simp add: wr_as_update "1.hyps"[OF True])
  qed
qed

lemma edgeRowsStore_eq:
  assumes "next \<noteq> field" "next < length st"
  shows "edgeRowsStore field next cols rows e x (st[next := Float32Array u])
         = st[next := Float32Array (edgeRows (st ! field) cols rows e x u)]"
  using assms
proof (induction "st ! field" cols rows e x u rule: edgeRows.induct)
  case (1 cols rows e x u)
  show ?case
  proof (cases "x < cols")
    case False
    then show ?thesis
      by (subst edgeRowsStore.simps, subst edgeRows.simps) simp
  next
    case True
    from 1(2,3) True show ?thesis
      by (subst edgeRowsStore.simps, subst edgeRows.simps)
         (simp add: Let_def wr_as_update "1.hyps"[OF True])
  qed
qed

lemma edgeColsStore_eq:
  assumes "next \<noteq> field" "next < length st"
  shows "edgeColsStore field next cols rows e y (st[next := Float32Array u])
         = st[next := Float32Array (edgeCols (st ! field) cols rows e y u)]"
  using assms
proof (induction "st ! field" cols rows e y u rule: edgeCols.induct)
  case (1 cols rows e y u)
  show ?case
  proof (cases "y < rows")
    case False
    then show ?thesis
      by (subst edgeColsStore.simps, subst edgeCols.simps) simp
  next
    case True
    from 1(2,3) True show ?thesis
      by (subst edgeColsStore.simps, subst edgeCols.simps)
         (simp add: Let_def wr_as_update "1.hyps"[OF True])
  qed
qed

lemma interiorYStore_eq:
  assumes "next \<noteq> field" "next < length st"
  shows "interiorYStore field next cols rows d e x y (st[next := Float32Array u])
         = st[next := Float32Array (interiorY (st ! field) cols rows d e x y u)]"
  using assms
proof (induction "st ! field" cols rows d e x y u rule: interiorY.induct)
  case (1 cols rows d e x y u)
  show ?case
  proof (cases "y < rows - 1")
    case False
    then show ?thesis
      by (subst interiorYStore.simps, subst interiorY.simps) simp
  next
    case True
    from 1(2,3) True show ?thesis
      by (subst interiorYStore.simps, subst interiorY.simps)
         (simp add: Let_def wr_as_update "1.hyps"[OF True])
  qed
qed

lemma interiorXStore_eq:
  assumes "next \<noteq> field" "next < length st"
  shows "interiorXStore field next cols rows d e x (st[next := Float32Array u])
         = st[next := Float32Array (interiorX (st ! field) cols rows d e x u)]"
  using assms
proof (induction "st ! field" cols rows d e x u rule: interiorX.induct)
  case (1 cols rows d e x u)
  show ?case
  proof (cases "x < cols - 1")
    case False
    then show ?thesis
      by (subst interiorXStore.simps, subst interiorX.simps) simp
  next
    case True
    from 1(2,3) True show ?thesis
      by (subst interiorXStore.simps, subst interiorX.simps)
         (simp add: interiorYStore_eq "1.hyps"[OF True])
  qed
qed

lemma diffusePheromonesStore_eq:
  assumes "field < length st"
  shows "diffusePheromonesStore field cols rows d e st
         = (st @ [diffusePheromones (st ! field) cols rows d e], length st)"
proof -
  let ?z = "newFloat32Array (length (cells (st ! field)))"
  let ?st = "st @ [Float32Array ?z]"
  have ne: "length st \<noteq> field" and lt: "length st < length ?st" using assms by simp_all
  have fld: "?st ! field = st ! field" using assms by (simp add: nth_append)
  have app: "?st[length st := Float32Array u] = st @ [Float32Array u]" for u by simp
  have a: "?st = ?st[length st := Float32Array ?z]" by simp
  have "edgeRowsStore field (length st) cols rows e 0 ?st
        = st @ [Float32Array (edgeRows (st ! field) cols rows e 0 ?z)]"
    by (subst a, subst edgeRowsStore_eq[OF ne lt]) (simp only: fld app)
  moreover have "edgeColsStore field (length st) cols rows e 0 (st @ [Float32Array u])
        = st @ [Float32Array (edgeCols (st ! field) cols rows e 0 u)]" for u
    by (subst app[symmetric], subst edgeColsStore_eq[OF ne lt]) (simp only: fld app)
  moreover have "interiorXStore field (length st) cols rows d e 1 (st @ [Float32Array u])
        = st @ [Float32Array (interiorX (st ! field) cols rows d e 1 u)]" for u
    by (subst app[symmetric], subst interiorXStore_eq[OF ne lt]) (simp only: fld app)
  ultimately show ?thesis
    by (simp add: diffusePheromonesStore_def allocFloat32Array_def diffusePheromones_def Let_def)
qed

lemma evaporatePheromonesStore_eq:
  assumes "field < length st"
  shows "evaporatePheromonesStore field e st
         = (st @ [evaporatePheromones (st ! field) e], length st)"
proof -
  let ?z = "newFloat32Array (length (cells (st ! field)))"
  let ?st = "st @ [Float32Array ?z]"
  have ne: "length st \<noteq> field" and lt: "length st < length ?st" using assms by simp_all
  have fld: "?st ! field = st ! field" using assms by (simp add: nth_append)
  have app: "?st[length st := Float32Array u] = st @ [Float32Array u]" for u by simp
  have a: "?st = ?st[length st := Float32Array ?z]" by simp
  have "evaporateFromStore field (length st) e 0 ?st
        = st @ [Float32Array (evaporateFrom (st ! field) e 0 ?z)]"
    by (subst a, subst evaporateFromStore_eq[OF ne lt]) (simp only: fld app)
  then show ?thesis
    by (simp add: evaporatePheromonesStore_def allocFloat32Array_def evaporatePheromones_def)
qed

text \<open>
  C9. Neither step function writes to its input. With the arrays in a store and the
  field at an allocated address, \<^verbatim>\<open>diffusePheromones\<close> and
  \<^verbatim>\<open>evaporatePheromones\<close> return a new address, one that was not allocated before the
  call; after the call every array that existed before, the input field among them, is
  cell for cell what it was, and the array at the new address is the result.
\<close>

theorem step_functions_frame:
  assumes "field < length st"
  shows "(case diffusePheromonesStore field cols rows d e st of (st', next) \<Rightarrow>
            st' ! field = st ! field \<and> next \<noteq> field \<and> \<not> next < length st
            \<and> length st' = length st + 1
            \<and> (\<forall>a < length st. st' ! a = st ! a)
            \<and> st' ! next = diffusePheromones (st ! field) cols rows d e)
     \<and> (case evaporatePheromonesStore field e st of (st', next) \<Rightarrow>
            st' ! field = st ! field \<and> next \<noteq> field \<and> \<not> next < length st
            \<and> length st' = length st + 1
            \<and> (\<forall>a < length st. st' ! a = st ! a)
            \<and> st' ! next = evaporatePheromones (st ! field) e)"
  using assms
  by (simp add: diffusePheromonesStore_eq evaporatePheromonesStore_eq nth_append)

theorem step_functions_frame_witness:
  "fst (diffusePheromonesStore 1 2 2 (Num (1/2)) (Num (1/2))
          [NumberArray [Num 9], Float32Array [Num 1, Num 2, Num 3, Num 4]]) ! 1
     = Float32Array [Num 1, Num 2, Num 3, Num 4]
   \<and> fst (diffusePheromonesStore 1 2 2 (Num (1/2)) (Num (1/2))
          [NumberArray [Num 9], Float32Array [Num 1, Num 2, Num 3, Num 4]]) ! 0
     = NumberArray [Num 9]
   \<and> snd (diffusePheromonesStore 1 2 2 (Num (1/2)) (Num (1/2))
          [NumberArray [Num 9], Float32Array [Num 1, Num 2, Num 3, Num 4]]) \<noteq> 1
   \<and> fst (evaporatePheromonesStore 1 (Num (1/2))
          [NumberArray [Num 9], Float32Array [Num 1, Num 2, Num 3, Num 4]]) ! 1
     = Float32Array [Num 1, Num 2, Num 3, Num 4]
   \<and> fst (evaporatePheromonesStore 1 (Num (1/2))
          [NumberArray [Num 9], Float32Array [Num 1, Num 2, Num 3, Num 4]]) ! 0
     = NumberArray [Num 9]
   \<and> snd (evaporatePheromonesStore 1 (Num (1/2))
          [NumberArray [Num 9], Float32Array [Num 1, Num 2, Num 3, Num 4]]) \<noteq> 1"
proof -
  let ?st = "[NumberArray [Num 9], Float32Array [Num 1, Num 2, Num 3, Num 4]]"
  have h: "1 < length ?st" by simp
  from step_functions_frame [OF h, of 2 2 "Num (1/2)" "Num (1/2)"]
  show ?thesis by (auto split: prod.splits)
qed

section \<open>Totals\<close>

lemma totalFrom_foldl:
  "0 \<le> i \<Longrightarrow> totalFrom a i t = foldl nadd t (drop (nat i) (cells a))"
proof (induction a i t rule: totalFrom.induct)
  case (1 field i tot)
  show ?case
  proof (cases "i < int (length (cells field))")
    case False
    then show ?thesis by (subst totalFrom.simps) simp
  next
    case True
    with "1.prems" have n: "nat i < length (cells field)" by simp
    have d: "drop (nat i) (cells field) = cells field ! nat i # drop (nat (i + 1)) (cells field)"
      using Cons_nth_drop_Suc[OF n] "1.prems" by (simp add: nat_add_distrib)
    have r: "rd field i = cells field ! nat i" using True "1.prems" by (simp add: rd_def)
    have "totalFrom field i tot = totalFrom field (i + 1) (nadd tot (rd field i))"
      using True by (subst totalFrom.simps) simp
    also have "\<dots> = foldl nadd (nadd tot (rd field i)) (drop (nat (i + 1)) (cells field))"
      using "1.prems" by (intro "1.IH"[OF True]) simp
    finally show ?thesis by (simp add: d r)
  qed
qed

lemma getTotalPheromone_foldl: "getTotalPheromone a = foldl nadd (Num 0) (cells a)"
  by (simp add: getTotalPheromone_def totalFrom_foldl)

lemma exactTotal_sum:
  "exactTotal a = (\<Sum>k \<in> {0..<int (length (cells a))}. val (rd a k))"
proof -
  have "exactTotal a = (\<Sum>i = 0..<length (cells a). val (cells a ! i))"
    by (simp add: exactTotal_def sum_list_sum_nth)
  also have "\<dots> = (\<Sum>k \<in> {0..<int (length (cells a))}. val (rd a k))"
    by (rule sum.reindex_bij_witness[where i = nat and j = int]) (auto simp: rd_def)
  finally show ?thesis .
qed

lemma finite_interiorCells [simp]: "finite (interiorCells cols rows)"
  by (simp add: interiorCells_def)

lemma interiorCells_iff:
  "k \<in> interiorCells cols rows \<longleftrightarrow>
     (\<exists>x y. 1 \<le> x \<and> x < cols - 1 \<and> 1 \<le> y \<and> y < rows - 1 \<and> k = x + y * cols)"
  by (auto simp: interiorCells_def)

lemma interior_shift_in_range:
  assumes "k \<in> interiorCells cols rows" "a \<in> {- 1, 0, 1}" "b \<in> {- 1, 0, 1}"
  shows "k + a + b * cols \<in> {0..<cols * rows}"
proof -
  from assms(1) obtain x y where h: "1 \<le> x" "x < cols - 1" "1 \<le> y" "y < rows - 1"
    "k = x + y * cols" unfolding interiorCells_iff by blast
  show ?thesis
    unfolding h(5) using interior_neighbours_in_range[OF h(1-4) assms(2,3)] by simp
qed

lemma interiorCells_subset: "interiorCells cols rows \<subseteq> {0..<cols * rows}"
proof
  fix k assume "k \<in> interiorCells cols rows"
  from interior_shift_in_range[OF this, of 0 0] show "k \<in> {0..<cols * rows}" by simp
qed

lemma shifted_sum_le:
  fixes F :: "int \<Rightarrow> real"
  assumes nn: "\<forall>k \<in> {0..<cols * rows}. 0 \<le> F k"
    and ab: "a \<in> {- 1, 0, 1}" "b \<in> {- 1, 0, 1}"
  shows "(\<Sum>k \<in> interiorCells cols rows. F (k + a + b * cols)) \<le> (\<Sum>k \<in> {0..<cols * rows}. F k)"
proof -
  let ?I = "interiorCells cols rows"
  let ?sh = "\<lambda>k. k + (a + b * cols)"
  have inj: "inj_on ?sh ?I" by (simp add: inj_on_def)
  have sub: "?sh ` ?I \<subseteq> {0..<cols * rows}"
    using interior_shift_in_range[OF _ ab] by (auto simp: add.assoc)
  have "(\<Sum>k \<in> ?I. F (k + a + b * cols)) = (\<Sum>k \<in> ?I. F (?sh k))"
    by (simp add: add.assoc)
  also have "\<dots> = (\<Sum>m \<in> ?sh ` ?I. F m)"
    using inj by (simp add: sum.reindex)
  also have "\<dots> \<le> (\<Sum>m \<in> {0..<cols * rows}. F m)"
    using sub nn by (intro sum_mono2) auto
  finally show ?thesis .
qed

lemma not_interior_is_boundary:
  fixes k cols rows :: int
  assumes "k \<in> {0..<cols * rows}" "k \<notin> interiorCells cols rows" "1 \<le> cols"
  shows "\<exists>x y. 0 \<le> x \<and> x < cols \<and> 0 \<le> y \<and> y < rows \<and> k = x + y * cols
           \<and> (x = 0 \<or> x = cols - 1 \<or> y = 0 \<or> y = rows - 1)"
proof -
  define x where "x = k mod cols"
  define y where "y = k div cols"
  have c: "0 < cols" using assms(3) by simp
  have k: "k = x + y * cols" by (simp add: x_def y_def)
  have x: "0 \<le> x" "x < cols" using c by (simp_all add: x_def)
  have y0: "0 \<le> y" using assms(1) c by (simp add: y_def pos_imp_zdiv_nonneg_iff)
  have y1: "y < rows"
  proof (rule ccontr)
    assume "\<not> y < rows"
    then have "rows \<le> y" by simp
    then have "cols * rows \<le> cols * y" using c by (intro mult_left_mono) simp_all
    moreover have "cols * y + x = k" by (simp add: k)
    ultimately have "cols * rows \<le> k" using x(1) by linarith
    then show False using assms(1) by simp
  qed
  have edge: "x = 0 \<or> x = cols - 1 \<or> y = 0 \<or> y = rows - 1"
  proof (rule ccontr)
    assume "\<not> (x = 0 \<or> x = cols - 1 \<or> y = 0 \<or> y = rows - 1)"
    with x y0 y1 have "1 \<le> x \<and> x < cols - 1 \<and> 1 \<le> y \<and> y < rows - 1" by linarith
    with k have "k \<in> interiorCells cols rows" unfolding interiorCells_iff by blast
    with assms(2) show False by simp
  qed
  show ?thesis
    by (intro exI[of _ x] exI[of _ y] conjI x y0 y1 k edge)
qed

lemma eight_average_le:
  fixes s :: real
  assumes "a1 \<le> s" "a2 \<le> s" "a3 \<le> s" "a4 \<le> s" "a5 \<le> s" "a6 \<le> s" "a7 \<le> s" "a8 \<le> s"
  shows "(a1 + a2 + a3 + a4 + a5 + a6 + a7 + a8) / 8 \<le> s"
proof -
  have "a1 + a2 + a3 + a4 \<le> 4 * s" using assms(1-4) by linarith
  moreover have "a5 + a6 + a7 + a8 \<le> 4 * s" using assms(5-8) by linarith
  ultimately have "a1 + a2 + a3 + a4 + a5 + a6 + a7 + a8 \<le> 8 * s" by linarith
  then show ?thesis by simp
qed

lemma diffusion_sum_le:
  fixes F G :: "int \<Rightarrow> real"
  assumes nn: "\<forall>k \<in> {0..<cols * rows}. 0 \<le> F k"
    and zero: "\<forall>k \<in> {0..<cols * rows} - interiorCells cols rows. F k = 0 \<and> G k = 0"
    and inner: "\<forall>k \<in> interiorCells cols rows.
       G k = F k * (1 - d)
             + (F (k - 1) + F (k + 1) + F (k - cols) + F (k + cols) + F (k - 1 - cols)
                + F (k + 1 - cols) + F (k - 1 + cols) + F (k + 1 + cols)) / 8 * d"
    and d: "0 \<le> d"
  shows "(\<Sum>k \<in> {0..<cols * rows}. G k) \<le> (\<Sum>k \<in> {0..<cols * rows}. F k)"
proof -
  let ?I = "interiorCells cols rows"
  let ?N = "{0..<cols * rows}"
  let ?S = "\<Sum>k \<in> ?N. F k"
  have SF: "?S = (\<Sum>k \<in> ?I. F k)"
    using zero by (intro sum.mono_neutral_right interiorCells_subset) simp_all
  have SG: "(\<Sum>k \<in> ?N. G k) = (\<Sum>k \<in> ?I. G k)"
    using zero by (intro sum.mono_neutral_right interiorCells_subset) simp_all
  note sh = shifted_sum_le[OF nn]
  have t1: "(\<Sum>k \<in> ?I. F (k - 1)) \<le> ?S" using sh[of "- 1" 0] by simp
  have t2: "(\<Sum>k \<in> ?I. F (k + 1)) \<le> ?S" using sh[of 1 0] by simp
  have t3: "(\<Sum>k \<in> ?I. F (k - cols)) \<le> ?S" using sh[of 0 "- 1"] by simp
  have t4: "(\<Sum>k \<in> ?I. F (k + cols)) \<le> ?S" using sh[of 0 1] by simp
  have t5: "(\<Sum>k \<in> ?I. F (k - 1 - cols)) \<le> ?S" using sh[of "- 1" "- 1"] by simp
  have t6: "(\<Sum>k \<in> ?I. F (k + 1 - cols)) \<le> ?S" using sh[of 1 "- 1"] by simp
  have t7: "(\<Sum>k \<in> ?I. F (k - 1 + cols)) \<le> ?S" using sh[of "- 1" 1] by simp
  have t8: "(\<Sum>k \<in> ?I. F (k + 1 + cols)) \<le> ?S" using sh[of 1 1] by simp
  let ?T = "(\<Sum>k \<in> ?I. F (k - 1)) + (\<Sum>k \<in> ?I. F (k + 1)) + (\<Sum>k \<in> ?I. F (k - cols))
            + (\<Sum>k \<in> ?I. F (k + cols)) + (\<Sum>k \<in> ?I. F (k - 1 - cols))
            + (\<Sum>k \<in> ?I. F (k + 1 - cols)) + (\<Sum>k \<in> ?I. F (k - 1 + cols))
            + (\<Sum>k \<in> ?I. F (k + 1 + cols))"
  have "(\<Sum>k \<in> ?I. G k)
        = (\<Sum>k \<in> ?I. F k * (1 - d)
             + (F (k - 1) + F (k + 1) + F (k - cols) + F (k + cols) + F (k - 1 - cols)
                + F (k + 1 - cols) + F (k - 1 + cols) + F (k + 1 + cols)) / 8 * d)"
    using inner by (intro sum.cong refl) simp
  also have "\<dots> = (\<Sum>k \<in> ?I. F k) * (1 - d) + ?T / 8 * d"
    by (simp only: sum.distrib sum_distrib_right[symmetric] sum_divide_distrib[symmetric])
  finally have G: "(\<Sum>k \<in> ?I. G k) = ?S * (1 - d) + ?T / 8 * d" by (simp only: SF)
  have "?T / 8 \<le> ?S" by (rule eight_average_le[OF t1 t2 t3 t4 t5 t6 t7 t8])
  then have "?T / 8 * d \<le> ?S * d" using d by (rule mult_right_mono)
  then have "?S * (1 - d) + ?T / 8 * d \<le> ?S * (1 - d) + ?S * d" by simp
  also have "\<dots> = ?S" by (simp add: algebra_simps)
  finally show ?thesis unfolding SG G .
qed

section \<open>The result of diffusePheromones as a list\<close>

lemma cells_diffusePheromones:
  assumes "1 \<le> cols" "length (cells f) = nat (cols * rows)"
  shows "cells (diffusePheromones f cols rows d e) =
     map (\<lambda>k. if 1 \<le> k mod cols \<and> k mod cols < cols - 1 \<and> 1 \<le> k div cols \<and> k div cols < rows - 1
              then toFloat32 (diffuseCell f cols d e k)
              else toFloat32 (nmul (rd f k) e))
         (map int [0..<nat (cols * rows)])"
proof (rule nth_equalityI)
  show "length (cells (diffusePheromones f cols rows d e))
      = length (map (\<lambda>k. if 1 \<le> k mod cols \<and> k mod cols < cols - 1 \<and> 1 \<le> k div cols \<and> k div cols < rows - 1
              then toFloat32 (diffuseCell f cols d e k)
              else toFloat32 (nmul (rd f k) e))
         (map int [0..<nat (cols * rows)]))"
    using assms(2) by simp
next
  fix i assume "i < length (cells (diffusePheromones f cols rows d e))"
  then have i: "i < nat (cols * rows)" using assms(2) by simp
  define k where "k = int i"
  define x where "x = k mod cols"
  define y where "y = k div cols"
  have c: "0 < cols" using assms(1) by simp
  have kr: "0 \<le> k" "k < cols * rows" using i by (simp_all add: k_def)
  have k: "k = x + y * cols" by (simp add: x_def y_def)
  have x: "0 \<le> x" "x < cols" using c by (simp_all add: x_def)
  have y0: "0 \<le> y" using kr(1) c by (simp add: y_def pos_imp_zdiv_nonneg_iff)
  have y1: "y < rows"
  proof (rule ccontr)
    assume "\<not> y < rows"
    then have "rows \<le> y" by simp
    then have "cols * rows \<le> cols * y" using c by (intro mult_left_mono) simp_all
    moreover have "cols * y + x = k" by (simp add: k)
    ultimately have "cols * rows \<le> k" using x(1) by linarith
    then show False using kr(2) by simp
  qed
  have "int i < int (nat (cols * rows))" using i by (simp only: of_nat_less_iff)
  then have "int i < int (length (cells (diffusePheromones f cols rows d e)))"
    by (simp only: length_diffusePheromones assms(2))
  then have "cells (diffusePheromones f cols rows d e) ! i = rd (diffusePheromones f cols rows d e) k"
    unfolding rd_def k_def by simp
  also have "\<dots> = (if 1 \<le> x \<and> x < cols - 1 \<and> 1 \<le> y \<and> y < rows - 1
              then toFloat32 (diffuseCell f cols d e k)
              else toFloat32 (nmul (rd f k) e))"
  proof (cases "1 \<le> x \<and> x < cols - 1 \<and> 1 \<le> y \<and> y < rows - 1")
    case True
    then have "rd (diffusePheromones f cols rows d e) (x + y * cols)
        = toFloat32 (diffuseCell f cols d e (x + y * cols))"
      by (intro diffuse_interior assms(2)) simp_all
    with True show ?thesis by (simp add: k)
  next
    case False
    with x y0 y1 have edge: "x = 0 \<or> x = cols - 1 \<or> y = 0 \<or> y = rows - 1" by linarith
    have "rd (diffusePheromones f cols rows d e) (x + y * cols)
        = toFloat32 (nmul (rd f (x + y * cols)) e)"
      by (rule diffuse_boundary[OF assms(2) x y0 y1 edge])
    then show ?thesis unfolding k[symmetric] if_not_P[OF False] .
  qed
  finally show "cells (diffusePheromones f cols rows d e) ! i
      = map (\<lambda>k. if 1 \<le> k mod cols \<and> k mod cols < cols - 1 \<and> 1 \<le> k div cols \<and> k div cols < rows - 1
              then toFloat32 (diffuseCell f cols d e k)
              else toFloat32 (nmul (rd f k) e))
         (map int [0..<nat (cols * rows)]) ! i"
    using i by (simp add: k_def x_def y_def)
qed

lemma upt_9: "[0..<9] = [0, 1, 2, 3, 4, 5, 6, 7, 8]"
  by code_simp

lemma upt_25:
  "[0..<25] = [0, 1, 2, 3, 4, 5, 6, 7, 8, 9, 10, 11, 12, 13, 14, 15, 16, 17, 18, 19, 20, 21, 22,
     23, 24]"
  by code_simp

section \<open>Mass under diffusion\<close>




end
